theory Spec2Isabelle
  imports Complex_Main "HOL-Library.Product_Lexorder" "HOL-Library.Sublist" "HOL-Library.Multiset"
    "HOL-Library.Log_Nat"
begin

section \<open>Data model (types/index.ts)\<close>

text \<open>
  A JavaScript number is modelled by the rational it denotes: quantities and prices are
  rationals, clock readings (\<^verbatim>\<open>Date.now()\<close>, integer milliseconds) and call counts
  are integers. The engine holds doubles: a quantity or a price that is not a double
  stands for the double nearest to it, as a decimal of the source text does (0.1 is
  \<open>fl (1 / 10)\<close>, with \<open>fl\<close> below). Orders and transactions keep the rational as
  given; the ledger reads it as that double, and the numbers the engine computes for
  the ledger (sums, differences, products and the quotient of \<^verbatim>\<open>updatePortfolio\<close>) are
  rounded as the code rounds them. The matcher only compares quantities, takes their
  minimum and subtracts the minimum from both; these subtractions are kept exact.
  \<^verbatim>\<open>NaN\<close> and the infinities have no counterpart. A string is the list of its code
  units, for the strings whose code units are below 256.
\<close>

datatype OrderType = Buy | Sell

datatype OrderStatus = Pending | Matched | Partial | Canceled

record Order =
  oid :: string
  otype :: OrderType
  tickerSymbol :: string
  quantity :: rat
  price :: rat
  timestamp :: int
  status :: OrderStatus
  remainingQuantity :: rat

record Transaction =
  tid :: string
  buyOrderId :: string
  sellOrderId :: string
  tx_tickerSymbol :: string
  tx_quantity :: rat
  tx_price :: rat
  tx_timestamp :: int

record PortfolioPosition =
  symbol :: string
  shares :: rat
  averageBuyPrice :: rat
  currentValue :: rat

text \<open>
  Every \<^verbatim>\<open>throw new Error(...)\<close> of the engine, one constructor per throw site:
  lines 121, 122, 123, 129 and 30 of trading-engine.ts.
\<close>

datatype error =
    QuantityMustBePositive
  | PriceMustBePositive
  | TickerSymbolRequired
  | NotEnoughShares
  | MaxTickersReached

text \<open>The error taxonomy of the specification, as a classification of the throw sites.\<close>

definition InvalidOrderParameters :: "error \<Rightarrow> bool" where
  "InvalidOrderParameters e =
     (e = QuantityMustBePositive \<or> e = PriceMustBePositive \<or> e = TickerSymbolRequired)"

definition InsufficientShares :: "error \<Rightarrow> bool" where
  "InsufficientShares e = (e = NotEnoughShares)"

definition CapacityExceeded :: "error \<Rightarrow> bool" where
  "CapacityExceeded e = (e = MaxTickersReached)"

section \<open>JavaScript library functions\<close>

text \<open>Decimal rendering of a number inside a template string.\<close>

definition digit_char :: "nat \<Rightarrow> char" where
  "digit_char d = char_of (48 + d)"

fun show_nat :: "nat \<Rightarrow> string" where
  "show_nat n =
     (if n < 10 then [digit_char n] else show_nat (n div 10) @ [digit_char (n mod 10)])"

declare show_nat.simps [simp del]

definition show_int :: "int \<Rightarrow> string" where
  "show_int i = (if i < 0 then CHR ''-'' # show_nat (nat (- i)) else show_nat (nat i))"

text \<open>
  \<^verbatim>\<open>String.prototype.trim\<close> strips white space and line terminators from both ends.
  Of the code units that ECMAScript counts as such (TAB, LF, VT, FF, CR, SP, NBSP, ZWNBSP,
  LS, PS and the category Zs), those below 256 are 9 to 13, 32 and 160.
\<close>

definition is_ws :: "char \<Rightarrow> bool" where
  "is_ws c = (of_char c \<in> {9, 10, 11, 12, 13, 32, 160 :: nat})"

definition js_trim :: "string \<Rightarrow> string" where
  "js_trim s = rev (dropWhile is_ws (rev (dropWhile is_ws s)))"

text \<open>
  The arithmetic of numbers: every operation gives the double nearest to the exact
  result, a tie going to the double with an even significand (IEEE 754 binary64: 53
  bits of significand, the least exponent of a unit in the last place is \<open>- 1074\<close>).
  \<open>expo x\<close> is the exponent of the greatest power of two that is at most \<open>x\<close>, for a
  positive \<open>x\<close>. A result of magnitude \<open>2 ^ 1024\<close> or more, which the code stores as an
  infinity, has no counterpart here.
\<close>

definition expo :: "rat \<Rightarrow> int" where
  "expo x =
     (let (a, b) = quotient_of x; d = bitlen a - bitlen b
      in if 2 powi d \<le> x then d else d - 1)"

definition round_even :: "rat \<Rightarrow> int" where
  "round_even m =
     (let f = \<lfloor>m\<rfloor>; d = m - of_int f
      in if d < 1 / 2 then f else if 1 / 2 < d then f + 1 else if even f then f else f + 1)"

definition fl :: "rat \<Rightarrow> rat" where
  "fl x =
     (if x = 0 then 0
      else let u = max (expo \<bar>x\<bar> - 52) (- 1074)
           in of_int (round_even (x / 2 powi u)) * 2 powi u)"

text \<open>
  \<^verbatim>\<open>Array.prototype.sort(cmp)\<close> is stable; for a comparator that is a total preorder
  its result is the stable sorted permutation, computed here by insertion. \<open>cmp a b \<le> 0\<close>
  keeps \<open>a\<close> in front of \<open>b\<close>.
\<close>

fun insort_cmp :: "('a \<Rightarrow> 'a \<Rightarrow> 'b::{zero,ord}) \<Rightarrow> 'a \<Rightarrow> 'a list \<Rightarrow> 'a list" where
  "insort_cmp cmp x [] = [x]"
| "insort_cmp cmp x (y # ys) =
     (if cmp x y \<le> 0 then x # y # ys else y # insort_cmp cmp x ys)"

definition js_sort :: "('a \<Rightarrow> 'a \<Rightarrow> 'b::{zero,ord}) \<Rightarrow> 'a list \<Rightarrow> 'a list" where
  "js_sort cmp xs = foldr (insort_cmp cmp) xs []"

text \<open>
  \<^verbatim>\<open>xs.slice(0, end)\<close> for an integer \<open>end\<close>: a negative \<open>end\<close> counts from the
  end of the array.
\<close>

definition js_slice0 :: "'a list \<Rightarrow> int \<Rightarrow> 'a list" where
  "js_slice0 xs e =
     (if e < 0 then take (nat (int (length xs) + e)) xs else take (nat e) xs)"

section \<open>OrderStorage\<close>

text \<open>
  Order objects are shared by reference between the caller of \<^verbatim>\<open>addOrder\<close>, the
  matcher and the arrays of the book, and the matcher mutates them in place. The model
  keeps the objects in a store (a list, an address is an index) and the arrays of the
  book hold addresses.
\<close>

type_synonym addr = nat

definition MAX_TICKERS :: nat where
  "MAX_TICKERS = 1024"

record OrderStorage =
  buyOrders :: "addr list list"
  sellOrders :: "addr list list"
  tickerToIndex :: "(string \<times> nat) list"
  nextIndex :: nat

definition new_OrderStorage :: OrderStorage where
  "new_OrderStorage =
     \<lparr>buyOrders = replicate MAX_TICKERS [], sellOrders = replicate MAX_TICKERS [],
      tickerToIndex = [], nextIndex = 0\<rparr>"

text \<open>
  \<^verbatim>\<open>getTickerIndex\<close>: the linear search returns the index of the first entry with the
  symbol (\<open>map_of\<close>); otherwise a new entry is pushed while \<open>nextIndex < MAX_TICKERS\<close>.
  The throw happens before any mutation.
\<close>

definition getTickerIndex :: "string \<Rightarrow> OrderStorage \<Rightarrow> error + nat \<times> OrderStorage" where
  "getTickerIndex ticker st =
     (case map_of (tickerToIndex st) ticker of
        Some i \<Rightarrow> Inr (i, st)
      | None \<Rightarrow>
          if nextIndex st < MAX_TICKERS
          then Inr (nextIndex st,
                    st\<lparr>nextIndex := nextIndex st + 1,
                       tickerToIndex := tickerToIndex st @ [(ticker, nextIndex st)]\<rparr>)
          else Inl MaxTickersReached)"

definition cmp_buy :: "Order list \<Rightarrow> addr \<Rightarrow> addr \<Rightarrow> rat" where
  "cmp_buy h a b =
     (if price (h ! b) \<noteq> price (h ! a) then price (h ! b) - price (h ! a)
      else of_int (timestamp (h ! a) - timestamp (h ! b)))"

definition cmp_sell :: "Order list \<Rightarrow> addr \<Rightarrow> addr \<Rightarrow> rat" where
  "cmp_sell h a b =
     (if price (h ! a) \<noteq> price (h ! b) then price (h ! a) - price (h ! b)
      else of_int (timestamp (h ! a) - timestamp (h ! b)))"

definition storage_addOrder :: "Order list \<Rightarrow> addr \<Rightarrow> OrderStorage \<Rightarrow> error + OrderStorage" where
  "storage_addOrder h a st =
     (case getTickerIndex (tickerSymbol (h ! a)) st of
        Inl e \<Rightarrow> Inl e
      | Inr (index, st1) \<Rightarrow>
          if otype (h ! a) = Buy
          then Inr (st1\<lparr>buyOrders :=
                  (buyOrders st1)[index := js_sort (cmp_buy h) (buyOrders st1 ! index @ [a])]\<rparr>)
          else Inr (st1\<lparr>sellOrders :=
                  (sellOrders st1)[index := js_sort (cmp_sell h) (sellOrders st1 ! index @ [a])]\<rparr>))"

definition storage_getBuyOrders :: "string \<Rightarrow> OrderStorage \<Rightarrow> addr list \<times> OrderStorage" where
  "storage_getBuyOrders ticker st =
     (case getTickerIndex ticker st of
        Inr (index, st1) \<Rightarrow> (buyOrders st1 ! index, st1)
      | Inl e \<Rightarrow> ([], st))"

definition storage_getSellOrders :: "string \<Rightarrow> OrderStorage \<Rightarrow> addr list \<times> OrderStorage" where
  "storage_getSellOrders ticker st =
     (case getTickerIndex ticker st of
        Inr (index, st1) \<Rightarrow> (sellOrders st1 ! index, st1)
      | Inl e \<Rightarrow> ([], st))"

text \<open>The loops of \<^verbatim>\<open>updateOrder\<close> and \<^verbatim>\<open>removeOrder\<close>: first entry with the id.\<close>

fun replaceById :: "Order list \<Rightarrow> addr \<Rightarrow> addr list \<Rightarrow> addr list" where
  "replaceById h a [] = []"
| "replaceById h a (r # rs) =
     (if oid (h ! r) = oid (h ! a) then a # rs else r # replaceById h a rs)"

fun spliceById :: "Order list \<Rightarrow> addr \<Rightarrow> addr list \<Rightarrow> addr list" where
  "spliceById h a [] = []"
| "spliceById h a (r # rs) =
     (if oid (h ! r) = oid (h ! a) then rs else r # spliceById h a rs)"

definition storage_updateOrder :: "Order list \<Rightarrow> addr \<Rightarrow> OrderStorage \<Rightarrow> error + OrderStorage" where
  "storage_updateOrder h a st =
     (case getTickerIndex (tickerSymbol (h ! a)) st of
        Inl e \<Rightarrow> Inl e
      | Inr (index, st1) \<Rightarrow>
          if otype (h ! a) = Buy
          then Inr (st1\<lparr>buyOrders :=
                  (buyOrders st1)[index := replaceById h a (buyOrders st1 ! index)]\<rparr>)
          else Inr (st1\<lparr>sellOrders :=
                  (sellOrders st1)[index := replaceById h a (sellOrders st1 ! index)]\<rparr>))"

definition storage_removeOrder :: "Order list \<Rightarrow> addr \<Rightarrow> OrderStorage \<Rightarrow> error + OrderStorage" where
  "storage_removeOrder h a st =
     (case getTickerIndex (tickerSymbol (h ! a)) st of
        Inl e \<Rightarrow> Inl e
      | Inr (index, st1) \<Rightarrow>
          if otype (h ! a) = Buy
          then Inr (st1\<lparr>buyOrders :=
                  (buyOrders st1)[index := spliceById h a (buyOrders st1 ! index)]\<rparr>)
          else Inr (st1\<lparr>sellOrders :=
                  (sellOrders st1)[index := spliceById h a (sellOrders st1 ! index)]\<rparr>))"

definition getAllTickers :: "OrderStorage \<Rightarrow> string list" where
  "getAllTickers st = map fst (tickerToIndex st)"

section \<open>TradingEngine\<close>

text \<open>
  The listeners are callbacks of the embedding application; \<^verbatim>\<open>notifyListeners\<close> has no
  effect on the engine's own fields and is left out. Each call of \<^verbatim>\<open>Date.now()\<close> is a
  reading \<open>now k\<close> of a clock given to the operation, \<open>k\<close> counting the readings the
  operation has made.
\<close>

record TradingEngine =
  orderStorage :: OrderStorage
  heap :: "Order list"
  transactions :: "Transaction list"
  orderCounter :: nat
  transactionCounter :: nat
  portfolioPositions :: "string \<rightharpoonup> PortfolioPosition"

definition new_TradingEngine :: TradingEngine where
  "new_TradingEngine =
     \<lparr>orderStorage = new_OrderStorage, heap = [], transactions = [], orderCounter = 0,
      transactionCounter = 0, portfolioPositions = Map.empty\<rparr>"

definition order_id :: "int \<Rightarrow> nat \<Rightarrow> string" where
  "order_id t n = ''order-'' @ show_int t @ ''-'' @ show_nat n"

definition transaction_id :: "int \<Rightarrow> nat \<Rightarrow> string" where
  "transaction_id t n = ''tx-'' @ show_int t @ ''-'' @ show_nat n"

definition generateOrderId :: "int \<Rightarrow> TradingEngine \<Rightarrow> string \<times> TradingEngine" where
  "generateOrderId t s =
     (order_id t (orderCounter s), s\<lparr>orderCounter := orderCounter s + 1\<rparr>)"

definition generateTransactionId :: "int \<Rightarrow> TradingEngine \<Rightarrow> string \<times> TradingEngine" where
  "generateTransactionId t s =
     (transaction_id t (transactionCounter s),
      s\<lparr>transactionCounter := transactionCounter s + 1\<rparr>)"

text \<open>
  \<^verbatim>\<open>findOrderById\<close>: every ticker of the loop is registered, so the two storage reads
  return from the search loop of \<^verbatim>\<open>getTickerIndex\<close> and leave the storage as it is
  (lemma \<open>storage_get_registered\<close>); only their results are used.
\<close>

definition findOrderById :: "string \<Rightarrow> TradingEngine \<Rightarrow> addr option" where
  "findOrderById orderId s =
     (if orderId = ''market'' \<or> orderId = ''auto-filled'' then None
      else find (\<lambda>r. oid (heap s ! r) = orderId)
             (concat (map (\<lambda>ticker. fst (storage_getBuyOrders ticker (orderStorage s)) @
                                     fst (storage_getSellOrders ticker (orderStorage s)))
                          (getAllTickers (orderStorage s)))))"

definition isBuyTransaction :: "Transaction \<Rightarrow> TradingEngine \<Rightarrow> bool" where
  "isBuyTransaction tx s =
     (if sellOrderId tx = ''auto-filled'' then True
      else if buyOrderId tx = ''market'' then False
      else if findOrderById (buyOrderId tx) s \<noteq> None then True
      else if findOrderById (sellOrderId tx) s \<noteq> None then False
      else False)"

text \<open>
  The ledger \<^verbatim>\<open>portfolioPositions\<close> is a plain object created by \<^verbatim>\<open>{}\<close>: its own
  properties are the positions (the field \<open>portfolioPositions\<close> of the model), and a
  read \<^verbatim>\<open>this.portfolioPositions[tickerSymbol]\<close> of a name that is not an own property
  goes on to \<^verbatim>\<open>Object.prototype\<close>. For the names of its members the read gives the
  member, a function or, for \<^verbatim>\<open>__proto__\<close>, the prototype itself: an object that is
  not a position, is truthy and has no number as \<^verbatim>\<open>shares\<close>.
\<close>

definition Object_prototype_members :: "string list" where
  "Object_prototype_members =
     [''constructor'', ''__defineGetter__'', ''__defineSetter__'', ''hasOwnProperty'',
      ''__lookupGetter__'', ''__lookupSetter__'', ''isPrototypeOf'', ''propertyIsEnumerable'',
      ''toString'', ''valueOf'', ''__proto__'', ''toLocaleString'']"

datatype property = Own PortfolioPosition | Inherited | Undefined

definition getProperty :: "(string \<rightharpoonup> PortfolioPosition) \<Rightarrow> string \<Rightarrow> property" where
  "getProperty pp ticker =
     (case pp ticker of
        Some pos \<Rightarrow> Own pos
      | None \<Rightarrow> if ticker \<in> set Object_prototype_members then Inherited else Undefined)"

text \<open>
  \<^verbatim>\<open>updatePortfolio\<close>. An undefined position is created first (line 323); an inherited
  member is truthy, so nothing is created, and \<^verbatim>\<open>position\<close> is that member: the
  assignments of lines 341 to 355 then write \<^verbatim>\<open>NaN\<close> and the price into an object of
  the runtime, the test of line 348 is false and the ledger keeps its own properties.
  What these writes do to the runtime's object is not part of the engine's state and is
  left out. They matter to a later read in one case: a transaction of the symbol
  \<^verbatim>\<open>__proto__\<close> writes \<^verbatim>\<open>shares\<close>, \<^verbatim>\<open>averageBuyPrice\<close> (both \<^verbatim>\<open>NaN\<close>,
  read as falsy like an undefined property) and \<^verbatim>\<open>currentValue\<close> (the price) into
  \<^verbatim>\<open>Object.prototype\<close> itself, so that the read of the symbol \<^verbatim>\<open>currentValue\<close> gives
  a number from then on; the model reads it as undefined. In HOL a quotient by zero is
  zero; in the code it is \<^verbatim>\<open>NaN\<close> or an infinity.
\<close>

definition updatePortfolio :: "Transaction \<Rightarrow> TradingEngine \<Rightarrow> TradingEngine" where
  "updatePortfolio tx s =
     (let ticker = tx_tickerSymbol tx; q = fl (tx_quantity tx); p = fl (tx_price tx);
          pp = portfolioPositions s
      in case getProperty pp ticker of
           Inherited \<Rightarrow> s
         | found \<Rightarrow>
             (let position = (case found of
                                Own pos \<Rightarrow> pos
                              | _ \<Rightarrow> \<lparr>symbol = ticker, shares = 0, averageBuyPrice = 0,
                                       currentValue = p\<rparr>);
                  pp1 = (if isBuyTransaction tx s
                         then (let totalSharesBefore = shares position;
                                   newShares = fl (totalSharesBefore + q)
                               in pp(ticker \<mapsto> position
                                      \<lparr>averageBuyPrice :=
                                         fl (fl (fl (totalSharesBefore * averageBuyPrice position) +
                                                 fl (q * p)) / newShares),
                                       shares := newShares\<rparr>))
                         else if fl (shares position - q) \<le> 0 then pp(ticker := None)
                         else pp(ticker \<mapsto> position\<lparr>shares := fl (shares position - q)\<rparr>));
                  pp2 = (case pp1 ticker of
                           None \<Rightarrow> pp1
                         | Some pos \<Rightarrow> pp1(ticker \<mapsto> pos\<lparr>currentValue := p\<rparr>))
              in s\<lparr>portfolioPositions := pp2\<rparr>))"

text \<open>
  \<^verbatim>\<open>matchOrder\<close>, the body of the loop for an opposite order that is neither skipped
  nor out of price. The objects are read and written through their addresses in the
  order of the source's statements. \<open>crossObjects\<close> is lines 256 to 291 and the two
  assignments of \<^verbatim>\<open>oppositeOrder.status\<close>: it gives the flag \<^verbatim>\<open>orderFilled\<close>, the
  transaction and the engine. \<open>cross\<close> adds the call of \<^verbatim>\<open>updateOrder\<close>, which may
  throw, and the push onto the log (lines 293 to 302).
\<close>

definition skipped :: "Order \<Rightarrow> bool" where
  "skipped oc = (status oc = Matched \<or> status oc = Canceled \<or> remainingQuantity oc \<le> 0)"

definition priceMatches :: "Order \<Rightarrow> Order \<Rightarrow> bool" where
  "priceMatches ord oc =
     (if otype ord = Buy then price ord \<ge> price oc else price ord \<le> price oc)"

definition transactionPrice :: "Order \<Rightarrow> Order \<Rightarrow> rat" where
  "transactionPrice ord oc = (if timestamp oc < timestamp ord then price oc else price ord)"

definition newTransaction ::
  "Order \<Rightarrow> Order \<Rightarrow> rat \<Rightarrow> (nat \<Rightarrow> int) \<Rightarrow> nat \<Rightarrow> TradingEngine \<Rightarrow>
     Transaction \<times> TradingEngine" where
  "newTransaction ord oc matchedQuantity now k s =
     (let (txid, s1) = generateTransactionId (now k) s
      in (\<lparr>tid = txid,
            buyOrderId = (if otype ord = Buy then oid ord else oid oc),
            sellOrderId = (if otype ord = Sell then oid ord else oid oc),
            tx_tickerSymbol = tickerSymbol ord,
            tx_quantity = matchedQuantity,
            tx_price = transactionPrice ord oc,
            tx_timestamp = now (k + 1)\<rparr>, s1))"

definition subRemaining :: "addr \<Rightarrow> rat \<Rightarrow> Order list \<Rightarrow> Order list" where
  "subRemaining r m h = h[r := (h ! r)\<lparr>remainingQuantity := remainingQuantity (h ! r) - m\<rparr>]"

definition setStatus :: "addr \<Rightarrow> OrderStatus \<Rightarrow> Order list \<Rightarrow> Order list" where
  "setStatus r v h = h[r := (h ! r)\<lparr>status := v\<rparr>]"

definition crossObjects ::
  "addr \<Rightarrow> addr \<Rightarrow> (nat \<Rightarrow> int) \<Rightarrow> nat \<Rightarrow> TradingEngine \<Rightarrow> bool \<times> Transaction \<times> TradingEngine" where
  "crossObjects a c now k s =
     (let matchedQuantity = min (remainingQuantity (heap s ! a)) (remainingQuantity (heap s ! c));
          (tx, s1) = newTransaction (heap s ! a) (heap s ! c) matchedQuantity now k s;
          s2 = updatePortfolio tx s1;
          h3 = subRemaining a matchedQuantity (heap s2);
          h4 = subRemaining c matchedQuantity h3;
          orderFilled = (remainingQuantity (h4 ! a) = 0);
          h5 = setStatus a (if orderFilled then Matched else Partial) h4;
          h6 = setStatus c (if remainingQuantity (h5 ! c) = 0 then Matched else Partial) h5
      in (orderFilled, tx, s2\<lparr>heap := h6\<rparr>))"

definition cross ::
  "addr \<Rightarrow> addr \<Rightarrow> (nat \<Rightarrow> int) \<Rightarrow> nat \<Rightarrow> TradingEngine \<Rightarrow>
     error option \<times> bool \<times> Transaction \<times> TradingEngine" where
  "cross a c now k s =
     (let (orderFilled, tx, s6) = crossObjects a c now k s
      in case storage_updateOrder (heap s6) c (orderStorage s6) of
           Inl e \<Rightarrow> (Some e, orderFilled, tx, s6)
         | Inr st \<Rightarrow>
             (None, orderFilled, tx,
              s6\<lparr>orderStorage := st, transactions := transactions s6 @ [tx]\<rparr>))"

text \<open>
  The loop over the copy \<^verbatim>\<open>ordersToProcess\<close>. The result is the error thrown if any,
  \<^verbatim>\<open>orderFilled\<close>, \<^verbatim>\<open>newTransactions\<close>, the number of clock readings made and the
  engine.
\<close>

fun matchLoop ::
  "addr \<Rightarrow> (nat \<Rightarrow> int) \<Rightarrow> addr list \<Rightarrow> nat \<Rightarrow> Transaction list \<Rightarrow> TradingEngine \<Rightarrow>
     error option \<times> bool \<times> Transaction list \<times> nat \<times> TradingEngine" where
  "matchLoop a now [] k txs s = (None, False, txs, k, s)"
| "matchLoop a now (c # cs) k txs s =
     (if skipped (heap s ! c) then matchLoop a now cs k txs s
      else if \<not> priceMatches (heap s ! a) (heap s ! c) then matchLoop a now cs k txs s
      else case cross a c now k s of
             (Some e, filled, tx, s') \<Rightarrow> (Some e, filled, txs, k + 2, s')
           | (None, filled, tx, s') \<Rightarrow>
               if filled then (None, True, txs @ [tx], k + 2, s')
               else matchLoop a now cs (k + 2) (txs @ [tx]) s')"

definition matchOrder ::
  "addr \<Rightarrow> (nat \<Rightarrow> int) \<Rightarrow> nat \<Rightarrow> TradingEngine \<Rightarrow>
     error option \<times> Transaction list \<times> nat \<times> TradingEngine" where
  "matchOrder a now k s =
     (let ord = heap s ! a;
          (oppositeOrders, st1) =
             (if otype ord = Buy then storage_getSellOrders (tickerSymbol ord) (orderStorage s)
              else storage_getBuyOrders (tickerSymbol ord) (orderStorage s));
          s1 = s\<lparr>orderStorage := st1\<rparr>
      in if oppositeOrders = [] then (None, [], k, s1)
         else case matchLoop a now oppositeOrders k [] s1 of
                (Some e, filled, txs, k', s2) \<Rightarrow> (Some e, txs, k', s2)
              | (None, filled, txs, k', s2) \<Rightarrow>
                  if \<not> filled \<and> remainingQuantity (heap s2 ! a) > 0
                  then (case storage_updateOrder (heap s2) a (orderStorage s2) of
                          Inl e \<Rightarrow> (Some e, txs, k', s2)
                        | Inr st \<Rightarrow> (None, txs, k', s2\<lparr>orderStorage := st\<rparr>))
                  else (None, txs, k', s2))"

text \<open>
  \<^verbatim>\<open>addOrder\<close>: the checks of lines 121 to 131 (\<open>validate\<close>), the creation of the
  order object (lines 133 to 142, \<open>createOrder\<close>, which reads the clock twice), its
  insertion into the book (line 145) and the matching with its two synthetic
  transactions (lines 148 to 214: \<open>settle\<close>, with \<open>autoFill\<close> for the two branches
  of no match, which is \<open>autoFillObjects\<close> up to the assignment of
  \<^verbatim>\<open>order.remainingQuantity\<close> and then \<^verbatim>\<open>updateOrder\<close>). The result is the error
  thrown or the address of the returned order, with the engine as the call leaves it.
\<close>

definition validate :: "OrderType \<Rightarrow> string \<Rightarrow> rat \<Rightarrow> rat \<Rightarrow> TradingEngine \<Rightarrow> error option" where
  "validate ty ticker q p s =
     (if q \<le> 0 then Some QuantityMustBePositive
      else if p \<le> 0 then Some PriceMustBePositive
      else if js_trim ticker = [] then Some TickerSymbolRequired
      else if ty = Sell \<and>
              (case getProperty (portfolioPositions s) ticker of
                 Undefined \<Rightarrow> True
               | Inherited \<Rightarrow> False
               | Own pos \<Rightarrow> shares pos < fl q)
           then Some NotEnoughShares
      else None)"

definition createOrder ::
  "OrderType \<Rightarrow> string \<Rightarrow> rat \<Rightarrow> rat \<Rightarrow> (nat \<Rightarrow> int) \<Rightarrow> TradingEngine \<Rightarrow> addr \<times> TradingEngine" where
  "createOrder ty ticker q p now s =
     (let (i, s1) = generateOrderId (now 0) s;
          ord = \<lparr>oid = i, otype = ty, tickerSymbol = ticker, quantity = q, price = p,
                 timestamp = now 1, status = Pending, remainingQuantity = q\<rparr>
      in (length (heap s1), s1\<lparr>heap := heap s1 @ [ord]\<rparr>))"

definition syntheticTransaction ::
  "OrderType \<Rightarrow> addr \<Rightarrow> (nat \<Rightarrow> int) \<Rightarrow> nat \<Rightarrow> TradingEngine \<Rightarrow> Transaction \<times> TradingEngine" where
  "syntheticTransaction ty a now k s =
     (let ord = heap s ! a;
          (txid, s1) = generateTransactionId (now k) s
      in (\<lparr>tid = txid,
            buyOrderId = (if ty = Buy then oid ord else ''market''),
            sellOrderId = (if ty = Buy then ''auto-filled'' else oid ord),
            tx_tickerSymbol = tickerSymbol ord,
            tx_quantity = quantity ord,
            tx_price = price ord,
            tx_timestamp = now (k + 1)\<rparr>, s1))"

definition autoFillObjects ::
  "OrderType \<Rightarrow> addr \<Rightarrow> (nat \<Rightarrow> int) \<Rightarrow> nat \<Rightarrow> TradingEngine \<Rightarrow> Transaction \<times> TradingEngine" where
  "autoFillObjects ty a now k s =
     (let (tx, s1) = syntheticTransaction ty a now k s;
          s2 = updatePortfolio tx s1;
          s3 = s2\<lparr>transactions := transactions s2 @ [tx]\<rparr>;
          h4 = setStatus a Matched (heap s3);
          h5 = h4[a := (h4 ! a)\<lparr>remainingQuantity := 0\<rparr>]
      in (tx, s3\<lparr>heap := h5\<rparr>))"

definition autoFill ::
  "OrderType \<Rightarrow> addr \<Rightarrow> (nat \<Rightarrow> int) \<Rightarrow> nat \<Rightarrow> TradingEngine \<Rightarrow> (error + addr) \<times> TradingEngine" where
  "autoFill ty a now k s =
     (let (tx, s5) = autoFillObjects ty a now k s
      in case storage_updateOrder (heap s5) a (orderStorage s5) of
           Inl e \<Rightarrow> (Inl e, s5)
         | Inr st \<Rightarrow> (Inr a, s5\<lparr>orderStorage := st\<rparr>))"

definition settle ::
  "OrderType \<Rightarrow> addr \<Rightarrow> (nat \<Rightarrow> int) \<Rightarrow> TradingEngine \<Rightarrow> (error + addr) \<times> TradingEngine" where
  "settle ty a now s =
     (case matchOrder a now 2 s of
        (Some e, newTransactions, k, s2) \<Rightarrow> (Inl e, s2)
      | (None, newTransactions, k, s2) \<Rightarrow>
          if newTransactions = [] then autoFill ty a now k s2 else (Inr a, s2))"

definition addOrder ::
  "OrderType \<Rightarrow> string \<Rightarrow> rat \<Rightarrow> rat \<Rightarrow> (nat \<Rightarrow> int) \<Rightarrow> TradingEngine \<Rightarrow>
     (error + addr) \<times> TradingEngine" where
  "addOrder ty ticker q p now s =
     (case validate ty ticker q p s of
        Some e \<Rightarrow> (Inl e, s)
      | None \<Rightarrow>
          (let (a, s1) = createOrder ty ticker q p now s
           in (case storage_addOrder (heap s1) a (orderStorage s1) of
                 Inl e \<Rightarrow> (Inl e, s1)
               | Inr st \<Rightarrow> settle ty a now (s1\<lparr>orderStorage := st\<rparr>))))"

text \<open>The queries.\<close>

definition getBuyOrders :: "string \<Rightarrow> TradingEngine \<Rightarrow> addr list \<times> TradingEngine" where
  "getBuyOrders ticker s =
     (let (rs, st) = storage_getBuyOrders ticker (orderStorage s)
      in (rs, s\<lparr>orderStorage := st\<rparr>))"

definition getSellOrders :: "string \<Rightarrow> TradingEngine \<Rightarrow> addr list \<times> TradingEngine" where
  "getSellOrders ticker s =
     (let (rs, st) = storage_getSellOrders ticker (orderStorage s)
      in (rs, s\<lparr>orderStorage := st\<rparr>))"

definition getRecentTransactions :: "int \<Rightarrow> TradingEngine \<Rightarrow> Transaction list" where
  "getRecentTransactions cnt s =
     js_slice0 (js_sort (\<lambda>a b. tx_timestamp b - tx_timestamp a) (transactions s)) cnt"

definition getAvailableTickers :: "TradingEngine \<Rightarrow> string list" where
  "getAvailableTickers s = getAllTickers (orderStorage s)"

section \<open>Notions used by the properties\<close>

text \<open>The shares held for a symbol: those of its position, none without a position.\<close>

definition heldShares :: "TradingEngine \<Rightarrow> string \<Rightarrow> rat" where
  "heldShares s ticker =
     (case portfolioPositions s ticker of None \<Rightarrow> 0 | Some pos \<Rightarrow> shares pos)"

text \<open>
  The position a transaction is applied to: the own one of its symbol, or the new one
  that \<^verbatim>\<open>updatePortfolio\<close> creates first (lines 323 to 330) when the read of the
  ledger is undefined.
\<close>

definition positionBefore :: "Transaction \<Rightarrow> TradingEngine \<Rightarrow> PortfolioPosition" where
  "positionBefore tx s =
     (case portfolioPositions s (tx_tickerSymbol tx) of
        None \<Rightarrow> \<lparr>symbol = tx_tickerSymbol tx, shares = 0, averageBuyPrice = 0,
                 currentValue = fl (tx_price tx)\<rparr>
      | Some pos \<Rightarrow> pos)"

text \<open>Two transactions and an engine holding 10 shares of MSFT bought at 40.\<close>

definition msft_engine :: TradingEngine where
  "msft_engine = new_TradingEngine\<lparr>portfolioPositions :=
     [''MSFT'' \<mapsto> \<lparr>symbol = ''MSFT'', shares = 10, averageBuyPrice = 40, currentValue = 40\<rparr>]\<rparr>"

definition msft_sale :: Transaction where
  "msft_sale = \<lparr>tid = ''tx-1002-0'', buyOrderId = ''market'', sellOrderId = ''order-1000-0'',
     tx_tickerSymbol = ''MSFT'', tx_quantity = 5, tx_price = 60, tx_timestamp = 1003\<rparr>"

definition aapl_fill :: Transaction where
  "aapl_fill = \<lparr>tid = ''tx-1002-0'', buyOrderId = ''order-1000-0'', sellOrderId = ''auto-filled'',
     tx_tickerSymbol = ''AAPL'', tx_quantity = 10, tx_price = 50, tx_timestamp = 1003\<rparr>"

text \<open>Two buys of one symbol, 1 at 10 and 2 at 20: the average cost is 50 / 3, rounded.\<close>

definition buy_1_at_10 :: Transaction where
  "buy_1_at_10 = \<lparr>tid = ''tx-1002-0'', buyOrderId = ''order-1000-0'', sellOrderId = ''auto-filled'',
     tx_tickerSymbol = ''AAPL'', tx_quantity = 1, tx_price = 10, tx_timestamp = 1003\<rparr>"

definition buy_2_at_20 :: Transaction where
  "buy_2_at_20 = \<lparr>tid = ''tx-2002-1'', buyOrderId = ''order-2000-1'', sellOrderId = ''auto-filled'',
     tx_tickerSymbol = ''AAPL'', tx_quantity = 2, tx_price = 20, tx_timestamp = 2003\<rparr>"

text \<open>
  A run of the registry: \<open>resolve\<close> is one call of \<^verbatim>\<open>getTickerIndex\<close> whose throw, if
  any, is caught by the caller, \<open>resolved\<close> what that call returns or throws.
  \<open>firstSeen ts\<close> lists the distinct symbols of \<open>ts\<close> in the order of their first
  occurrence, and \<open>registry F\<close> is the storage in which the symbols \<open>F\<close> are registered
  in that order and nothing else has happened.
\<close>

definition resolve :: "string \<Rightarrow> OrderStorage \<Rightarrow> OrderStorage" where
  "resolve t st = (case getTickerIndex t st of Inr (i, st') \<Rightarrow> st' | Inl e \<Rightarrow> st)"

definition resolved :: "string \<Rightarrow> OrderStorage \<Rightarrow> error + nat" where
  "resolved t st = (case getTickerIndex t st of Inr (i, st') \<Rightarrow> Inr i | Inl e \<Rightarrow> Inl e)"

definition firstSeen :: "string list \<Rightarrow> string list" where
  "firstSeen ts = fold (\<lambda>t acc. if t \<in> set acc then acc else acc @ [t]) ts []"

definition registry :: "string list \<Rightarrow> OrderStorage" where
  "registry F = new_OrderStorage\<lparr>tickerToIndex := zip F [0..<length F], nextIndex := length F\<rparr>"

text \<open>An engine whose log holds three transactions, two of them with the same time.\<close>

definition log_tx :: "string \<Rightarrow> int \<Rightarrow> Transaction" where
  "log_tx i t = \<lparr>tid = i, buyOrderId = ''order-1-0'', sellOrderId = ''auto-filled'',
     tx_tickerSymbol = ''AAPL'', tx_quantity = 1, tx_price = 1, tx_timestamp = t\<rparr>"

definition log_engine :: TradingEngine where
  "log_engine = new_TradingEngine\<lparr>transactions :=
     [log_tx ''tx-5-0'' 5, log_tx ''tx-7-1'' 7, log_tx ''tx-5-2'' 5]\<rparr>"

text \<open>
  The fields of an order that no statement of the engine assigns after the creation of
  the object.
\<close>

definition static :: "Order \<Rightarrow> string \<times> OrderType \<times> string \<times> rat \<times> rat \<times> int" where
  "static ord = (oid ord, otype ord, tickerSymbol ord, quantity ord, price ord, timestamp ord)"

text \<open>
  The order of the book: bids by price descending, asks by price ascending, ties by
  timestamp ascending.
\<close>

definition bid_before :: "Order \<Rightarrow> Order \<Rightarrow> bool" where
  "bid_before x y = (price y < price x \<or> (price x = price y \<and> timestamp x \<le> timestamp y))"

definition ask_before :: "Order \<Rightarrow> Order \<Rightarrow> bool" where
  "ask_before x y = (price x < price y \<or> (price x = price y \<and> timestamp x \<le> timestamp y))"

definition sorted_bids :: "Order list \<Rightarrow> addr list \<Rightarrow> bool" where
  "sorted_bids h rs = sorted_wrt (\<lambda>a b. bid_before (h ! a) (h ! b)) rs"

definition sorted_asks :: "Order list \<Rightarrow> addr list \<Rightarrow> bool" where
  "sorted_asks h rs = sorted_wrt (\<lambda>a b. ask_before (h ! a) (h ! b)) rs"

text \<open>
  Well-formed storage: both tables have \<open>MAX_TICKERS\<close> rows, every registered slot is
  a row, every address in a row is an object of that side whose symbol is registered,
  and every row is in the order of the book.
\<close>

definition filed :: "Order list \<Rightarrow> OrderStorage \<Rightarrow> OrderType \<Rightarrow> addr \<Rightarrow> bool" where
  "filed h st ty r =
     (r < length h \<and> otype (h ! r) = ty \<and>
      map_of (tickerToIndex st) (tickerSymbol (h ! r)) \<noteq> None)"

definition storage_wf :: "Order list \<Rightarrow> OrderStorage \<Rightarrow> bool" where
  "storage_wf h st =
     (length (buyOrders st) = MAX_TICKERS \<and> length (sellOrders st) = MAX_TICKERS \<and>
      (\<forall>e \<in> set (tickerToIndex st). snd e < MAX_TICKERS) \<and>
      (\<forall>i < MAX_TICKERS. \<forall>r \<in> set (buyOrders st ! i). filed h st Buy r) \<and>
      (\<forall>i < MAX_TICKERS. \<forall>r \<in> set (sellOrders st ! i). filed h st Sell r) \<and>
      (\<forall>i < MAX_TICKERS. sorted_bids h (buyOrders st ! i)) \<and>
      (\<forall>i < MAX_TICKERS. sorted_asks h (sellOrders st ! i)))"

text \<open>
  Well-formed engine: well-formed storage, and the ids of the objects are distinct and
  were made from counter values below the current one.
\<close>

definition engine_wf :: "TradingEngine \<Rightarrow> bool" where
  "engine_wf s =
     (storage_wf (heap s) (orderStorage s) \<and> distinct (map oid (heap s)) \<and>
      (\<forall>i \<in> set (map oid (heap s)). \<exists>t n. n < orderCounter s \<and> i = order_id t n))"



text \<open>
  \<open>agree h h'\<close>: the store \<open>h'\<close> has every object of \<open>h\<close>, with the same values in
  the fields that are never assigned.
\<close>

definition agree :: "Order list \<Rightarrow> Order list \<Rightarrow> bool" where
  "agree h h' = (length h \<le> length h' \<and> (\<forall>r < length h. static (h' ! r) = static (h ! r)))"

text \<open>
  What the matcher leaves as it is in a well-formed engine: the storage, the fields of
  the objects that are never assigned, and the order counter.
\<close>

definition book_kept :: "TradingEngine \<Rightarrow> TradingEngine \<Rightarrow> bool" where
  "book_kept s s' =
     (orderStorage s' = orderStorage s \<and> map static (heap s') = map static (heap s) \<and>
      orderCounter s' = orderCounter s)"

text \<open>
  The book is sorted: for every symbol, the row of bids and the row of asks that the
  storage returns are in the order of the book.
\<close>

definition book_sorted :: "Order list \<Rightarrow> OrderStorage \<Rightarrow> bool" where
  "book_sorted h st =
     (\<forall>t. sorted_bids h (fst (storage_getBuyOrders t st)) \<and>
          sorted_asks h (fst (storage_getSellOrders t st)))"

text \<open>A clock for the examples: the readings of a call are 1000, 1001, ...\<close>

definition clock0 :: "nat \<Rightarrow> int" where
  "clock0 k = 1000 + int k"

text \<open>
  The calls that the components and the order generator of the repository make on the
  engine and that change it, and a run of such calls from the new engine. The other
  queries (\<^verbatim>\<open>getPortfolio\<close>, \<^verbatim>\<open>getTransactions\<close>, \<^verbatim>\<open>getRecentTransactions\<close>,
  \<^verbatim>\<open>getAvailableTickers\<close>, \<^verbatim>\<open>findOrderById\<close>) leave every field as it is;
  \<^verbatim>\<open>matchOrder\<close> and the two id generators are called from \<^verbatim>\<open>addOrder\<close> only.
\<close>

datatype call =
    AddOrder OrderType string rat rat "nat \<Rightarrow> int"
  | GetBuyOrders string
  | GetSellOrders string

fun perform :: "call \<Rightarrow> TradingEngine \<Rightarrow> TradingEngine" where
  "perform (AddOrder ty ticker q p now) s = snd (addOrder ty ticker q p now s)"
| "perform (GetBuyOrders ticker) s = snd (getBuyOrders ticker s)"
| "perform (GetSellOrders ticker) s = snd (getSellOrders ticker s)"

definition run :: "call list \<Rightarrow> TradingEngine" where
  "run calls = fold perform calls new_TradingEngine"

text \<open>Two buys of one symbol, the second at the better price.\<close>

definition two_bids :: TradingEngine where
  "two_bids = run [AddOrder Buy ''AAPL'' 10 50 clock0, AddOrder Buy ''AAPL'' 5 60 clock0]"



text \<open>
  \<open>crossing ord oc tx\<close>: \<open>tx\<close> is a transaction between the incoming order \<open>ord\<close> and the
  book entry \<open>oc\<close>.
\<close>

definition crossing :: "Order \<Rightarrow> Order \<Rightarrow> Transaction \<Rightarrow> bool" where
  "crossing ord oc tx =
     (buyOrderId tx = (if otype ord = Buy then oid ord else oid oc) \<and>
      sellOrderId tx = (if otype ord = Sell then oid ord else oid oc) \<and>
      tx_tickerSymbol tx = tickerSymbol ord)"

text \<open>
  An engine with a sell order of TSLA, 10 at 30, resting in the book with its full
  quantity. \<^verbatim>\<open>addOrder\<close> fills every order that does not cross, so it never leaves such
  a state; it is the kind of state the loop of \<^verbatim>\<open>matchOrder\<close> is written for.
\<close>

definition resting_sell :: Order where
  "resting_sell = \<lparr>oid = order_id 900 0, otype = Sell, tickerSymbol = ''TSLA'', quantity = 10,
     price = 30, timestamp = 900, status = Pending, remainingQuantity = 10\<rparr>"


text \<open>
  The same engine at line 148 of \<^verbatim>\<open>addOrder('buy', 'TSLA', 4, 35)\<close> with the clock
  \<open>clock0\<close>: the incoming order is created and inserted, and not yet matched.
\<close>

definition incoming_buy :: Order where
  "incoming_buy = \<lparr>oid = order_id 1000 1, otype = Buy, tickerSymbol = ''TSLA'', quantity = 4,
     price = 35, timestamp = 1001, status = Pending, remainingQuantity = 4\<rparr>"

definition crossing_engine :: TradingEngine where
  "crossing_engine =
     \<lparr>orderStorage = \<lparr>buyOrders = (replicate 1024 [])[0 := [1]],
        sellOrders = (replicate 1024 [])[0 := [0]],
        tickerToIndex = [(''TSLA'', 0)], nextIndex = 1\<rparr>,
      heap = [resting_sell, incoming_buy], transactions = [], orderCounter = 2,
      transactionCounter = 0, portfolioPositions = Map.empty\<rparr>"

definition tsla_trade :: Transaction where
  "tsla_trade = \<lparr>tid = transaction_id 1002 0, buyOrderId = order_id 1000 1,
     sellOrderId = order_id 900 0, tx_tickerSymbol = ''TSLA'', tx_quantity = 4, tx_price = 30,
     tx_timestamp = 1003\<rparr>"

definition crossed_engine :: TradingEngine where
  "crossed_engine =
     crossing_engine\<lparr>transactionCounter := 1,
       portfolioPositions := [''TSLA'' \<mapsto> \<lparr>symbol = ''TSLA'', shares = 4,
          averageBuyPrice = 30, currentValue = 30\<rparr>],
       heap := [resting_sell\<lparr>remainingQuantity := 6, status := Partial\<rparr>,
                incoming_buy\<lparr>remainingQuantity := 0, status := Matched\<rparr>],
       transactions := [tsla_trade]\<rparr>"

text \<open>
  The counter of the registry counts the registered symbols, and never passes
  \<open>MAX_TICKERS\<close>.
\<close>

definition registry_count :: "OrderStorage \<Rightarrow> bool" where
  "registry_count st =
     (nextIndex st = length (tickerToIndex st) \<and> nextIndex st \<le> MAX_TICKERS)"

section \<open>Rounding to the nearest double\<close>

text \<open>
  \<open>expo\<close> is the binary exponent; a number with at most 53 significant bits above the
  least unit is its own rounding, so the integers below \<open>2 ^ 53\<close> are.
\<close>

lemma bitlen_rat:
  assumes "0 < a"
  shows "(2::rat) powi (bitlen a - 1) \<le> of_int a" and "of_int a < (2::rat) powi bitlen a"
proof -
  from assms have b: "1 \<le> bitlen a" by (auto simp: bitlen_alt_def)
  from bitlen_bounds [OF assms]
  have l: "(2::int) ^ nat (bitlen a - 1) \<le> a" and u: "a < 2 ^ nat (bitlen a)" by auto
  from l have "(of_int ((2::int) ^ nat (bitlen a - 1)) :: rat) \<le> of_int a"
    by (simp only: of_int_le_iff)
  then show "(2::rat) powi (bitlen a - 1) \<le> of_int a"
    using b by (simp add: power_int_def)
  from u have "(of_int a :: rat) < of_int ((2::int) ^ nat (bitlen a))"
    by (simp only: of_int_less_iff)
  then show "of_int a < (2::rat) powi bitlen a"
    using b by (simp add: power_int_def)
qed

lemma expo_bounds:
  assumes x: "0 < x"
  shows "2 powi expo x \<le> x" and "x < 2 powi (expo x + 1)"
proof -
  obtain a b where q: "quotient_of x = (a, b)" by (cases "quotient_of x")
  then have b: "0 < b" and e: "x = of_int a / of_int b"
    using quotient_of_denom_pos quotient_of_div by auto
  from x e b have a: "0 < a" by (simp add: zero_less_divide_iff)
  let ?d = "bitlen a - bitlen b"
  note A = bitlen_rat [OF a] and B = bitlen_rat [OF b]
  have b': "(0::rat) < of_int b" using b by simp
  have lo: "(2::rat) powi (?d - 1) \<le> x"
  proof -
    have "(2::rat) powi (?d - 1) * of_int b \<le> 2 powi (?d - 1) * 2 powi bitlen b"
      using B(2) by (simp add: less_imp_le)
    also have "\<dots> = 2 powi (bitlen a - 1)"
      by (simp flip: power_int_add)
    also have "\<dots> \<le> of_int a" by (rule A(1))
    finally show ?thesis unfolding e using b' by (simp add: pos_le_divide_eq)
  qed
  have hi: "x < (2::rat) powi (?d + 1)"
  proof -
    have "of_int a < (2::rat) powi bitlen a" by (rule A(2))
    also have "\<dots> = 2 powi (?d + 1) * 2 powi (bitlen b - 1)"
      by (simp flip: power_int_add)
    also have "\<dots> \<le> 2 powi (?d + 1) * of_int b"
      using B(1) by simp
    finally show ?thesis unfolding e using b' by (simp add: pos_divide_less_eq)
  qed
  show "2 powi expo x \<le> x"
    using lo by (simp add: expo_def q Let_def)
  show "x < 2 powi (expo x + 1)"
    using hi by (auto simp add: expo_def q Let_def not_le)
qed

lemma powi_less_exp:
  assumes "(2::rat) powi m < 2 powi n"
  shows "m < n"
proof (rule ccontr)
  assume "\<not> m < n"
  then have "n \<le> m" by simp
  then have "(2::rat) powi n \<le> 2 powi m" by (intro power_int_increasing) simp_all
  with assms show False by simp
qed

lemma expo_unique:
  assumes "0 < x" and l: "2 powi e \<le> x" and u: "x < 2 powi (e + 1)"
  shows "expo x = e"
proof -
  note b = expo_bounds [OF assms(1)]
  from b(1) u have "(2::rat) powi expo x < 2 powi (e + 1)" by simp
  then have 1: "expo x < e + 1" by (rule powi_less_exp)
  from l b(2) have "(2::rat) powi e < 2 powi (expo x + 1)" by simp
  then have 2: "e < expo x + 1" by (rule powi_less_exp)
  from 1 2 show ?thesis by simp
qed

lemma round_even_of_int [simp]: "round_even (of_int n) = n"
  by (simp add: round_even_def)

lemma fl_exact:
  assumes x: "x = of_int n * 2 powi k" and k: "max (expo \<bar>x\<bar> - 52) (- 1074) \<le> k"
  shows "fl x = x"
proof (cases "x = 0")
  case True
  then show ?thesis by (simp add: fl_def)
next
  case False
  define u where "u = max (expo \<bar>x\<bar> - 52) (- 1074)"
  have "x / 2 powi u = of_int n * 2 powi (k - u)"
    unfolding x by (simp add: power_int_diff)
  also have "\<dots> = of_int (n * 2 ^ nat (k - u))"
    using k by (simp add: u_def power_int_def)
  finally have "round_even (x / 2 powi u) = n * 2 ^ nat (k - u)"
    by (simp only: round_even_of_int)
  then have "of_int (round_even (x / 2 powi u)) * 2 powi u = of_int n * 2 powi (k - u) * 2 powi u"
    using k by (simp add: u_def power_int_def)
  also have "\<dots> = x" unfolding x by (simp add: power_int_diff)
  finally show ?thesis using False by (simp add: fl_def u_def Let_def)
qed

lemma fl_of_int:
  assumes "\<bar>n\<bar> < 2 ^ 53"
  shows "fl (of_int n) = of_int n"
proof (cases "n = 0")
  case True
  then show ?thesis by (simp add: fl_def)
next
  case False
  then have p: "(0::rat) < \<bar>of_int n\<bar>" by simp
  from assms have "(of_int \<bar>n\<bar> :: rat) < of_int (2 ^ 53)" by (simp only: of_int_less_iff)
  then have "\<bar>of_int n :: rat\<bar> < 2 powi 53" by simp
  with expo_bounds(1) [OF p] have "(2::rat) powi expo \<bar>of_int n\<bar> < 2 powi 53" by simp
  then have "expo \<bar>of_int n :: rat\<bar> < 53" by (rule powi_less_exp)
  then have "max (expo \<bar>of_int n :: rat\<bar> - 52) (- 1074) \<le> 0" by simp
  then show ?thesis by (intro fl_exact [where n = n and k = 0]) simp_all
qed

lemma fl_numeral [simp]: "(numeral w :: int) < 2 ^ 53 \<Longrightarrow> fl (numeral w) = numeral w"
  using fl_of_int [of "numeral w"] by simp

lemma fl_0 [simp]: "fl 0 = 0"
  by (simp add: fl_def)

lemma fl_1 [simp]: "fl 1 = 1"
  using fl_of_int [of 1] by simp

lemma fl_between:
  assumes "0 < x" "2 powi e \<le> x" "x < 2 powi (e + 1)" "- 1022 \<le> e"
  shows "fl x = of_int (round_even (x / 2 powi (e - 52))) * 2 powi (e - 52)"
proof -
  have m: "max (e - 52) (- 1074) = e - 52" using assms(4) by simp
  have a: "\<bar>x\<bar> = x" and n: "x \<noteq> 0" using assms(1) by simp_all
  show ?thesis
    unfolding fl_def a expo_unique [OF assms(1-3)] m Let_def using n by simp
qed

lemma fl_neg_numeral [simp]:
  "(numeral w :: int) < 2 ^ 53 \<Longrightarrow> fl (- numeral w) = - numeral w"
  using fl_of_int [of "- numeral w"] by simp

lemma fl_idem_lemma:
  assumes "0 < x" "2 powi e \<le> x" "x < 2 powi (e + 1)" "- 1022 \<le> e"
    "x = of_int n * 2 powi (e - 52)"
  shows "fl x = x"
proof (rule fl_exact [where n = n and k = "e - 52"])
  show "x = of_int n * 2 powi (e - 52)" by fact
  from assms(1) have a: "\<bar>x\<bar> = x" by simp
  show "max (expo \<bar>x\<bar> - 52) (- 1074) \<le> e - 52"
    unfolding a expo_unique [OF assms(1-3)] using assms(4) by simp
qed

lemma round_even_near:
  assumes "\<bar>m - of_int n\<bar> < 1 / 2"
  shows "round_even m = n"
proof (cases "of_int n \<le> m")
  case True
  with assms have "\<lfloor>m\<rfloor> = n" by (intro floor_unique) (simp_all add: abs_less_iff)
  with assms True show ?thesis by (simp add: round_even_def Let_def abs_less_iff)
next
  case False
  with assms have f: "\<lfloor>m\<rfloor> = n - 1" by (intro floor_unique) (simp_all add: abs_less_iff)
  with assms False show ?thesis by (simp add: round_even_def Let_def abs_less_iff)
qed

lemma round_even_tie:
  assumes "m = of_int n + 1 / 2"
  shows "round_even m = (if even n then n else n + 1)"
proof -
  from assms have "\<lfloor>m\<rfloor> = n" by (intro floor_unique) simp_all
  with assms show ?thesis by (simp add: round_even_def Let_def)
qed

lemma fl_tenth: "fl (1 / 10) = 3602879701896397 / 36028797018963968"
proof -
  have "fl (1 / 10) = of_int (round_even (1 / 10 / 2 powi (- 4 - 52))) * 2 powi (- 4 - 52)"
    by (rule fl_between) simp_all
  also have "round_even (1 / 10 / 2 powi (- 4 - 52)) = 7205759403792794"
    by (rule round_even_near) simp
  finally show ?thesis by simp
qed

lemma fl_fifth: "fl (1 / 5) = 3602879701896397 / 18014398509481984"
proof -
  have "fl (1 / 5) = of_int (round_even (1 / 5 / 2 powi (- 3 - 52))) * 2 powi (- 3 - 52)"
    by (rule fl_between) simp_all
  also have "round_even (1 / 5 / 2 powi (- 3 - 52)) = 7205759403792794"
    by (rule round_even_near) simp
  finally show ?thesis by simp
qed

text \<open>0.1 + 0.2 is 0.30000000000000004: the exact sum is a tie.\<close>

lemma fl_decimal_example: "fl (fl (1 / 10) + fl (1 / 5)) = 1351079888211149 / 4503599627370496"
proof -
  have "fl (fl (1 / 10) + fl (1 / 5)) =
      of_int (round_even ((fl (1 / 10) + fl (1 / 5)) / 2 powi (- 2 - 52))) * 2 powi (- 2 - 52)"
    by (rule fl_between) (simp_all add: fl_tenth fl_fifth)
  also have "round_even ((fl (1 / 10) + fl (1 / 5)) / 2 powi (- 2 - 52)) =
      (if even (5404319552844595 :: int) then 5404319552844595 else 5404319552844595 + 1)"
    by (rule round_even_tie) (simp add: fl_tenth fl_fifth)
  finally show ?thesis by simp
qed

text \<open>50 / 3 rounds to the double that the code prints as 16.666666666666668.\<close>

lemma fl_quotient_example: "fl (50 / 3) = 4691249611844267 / 281474976710656"
proof -
  have "fl (50 / 3) = of_int (round_even (50 / 3 / 2 powi (4 - 52))) * 2 powi (4 - 52)"
    by (rule fl_between) simp_all
  also have "round_even (50 / 3 / 2 powi (4 - 52)) = 4691249611844267"
    by (rule round_even_near) simp
  finally show ?thesis by simp
qed

text \<open>Rounding keeps the sign.\<close>

lemma round_even_nonpos:
  assumes "m \<le> 0"
  shows "round_even m \<le> 0"
proof -
  from assms have f: "\<lfloor>m\<rfloor> \<le> 0" by (simp add: floor_le_zero)
  show ?thesis
  proof (cases "m = of_int \<lfloor>m\<rfloor>")
    case True
    with f show ?thesis by (simp add: round_even_def Let_def)
  next
    case False
    with of_int_floor_le [of m] have "of_int \<lfloor>m\<rfloor> < m" by (auto simp: less_le)
    from this assms have "(of_int \<lfloor>m\<rfloor> :: rat) < 0" by (rule less_le_trans)
    then have "\<lfloor>m\<rfloor> < 0" by (simp only: of_int_less_0_iff)
    then show ?thesis by (simp add: round_even_def Let_def)
  qed
qed

lemma fl_nonpos:
  assumes "x \<le> 0"
  shows "fl x \<le> 0"
proof (cases "x = 0")
  case True
  then show ?thesis by simp
next
  case False
  define u where "u = max (expo \<bar>x\<bar> - 52) (- 1074)"
  have "x / 2 powi u \<le> 0" using assms by (simp add: divide_le_0_iff)
  then have "round_even (x / 2 powi u) \<le> 0" by (rule round_even_nonpos)
  then have "of_int (round_even (x / 2 powi u)) * (2::rat) powi u \<le> 0"
    by (simp add: mult_le_0_iff)
  then show ?thesis using False by (simp add: fl_def u_def Let_def)
qed

section \<open>Where errors come from\<close>

lemma getTickerIndex_error: "getTickerIndex t st = Inl e \<Longrightarrow> e = MaxTickersReached"
  by (auto simp: getTickerIndex_def split: option.splits if_splits)

lemma storage_updateOrder_error: "storage_updateOrder h a st = Inl e \<Longrightarrow> e = MaxTickersReached"
  by (auto simp: storage_updateOrder_def split: sum.splits if_splits dest: getTickerIndex_error)

lemma storage_addOrder_error: "storage_addOrder h a st = Inl e \<Longrightarrow> e = MaxTickersReached"
  by (auto simp: storage_addOrder_def split: sum.splits if_splits dest: getTickerIndex_error)

lemma cross_error: "cross a c now k s = (Some e, f, tx, s') \<Longrightarrow> e = MaxTickersReached"
  by (auto simp: cross_def split: prod.splits sum.splits dest: storage_updateOrder_error)

lemma matchLoop_error:
  "matchLoop a now cs k txs s = (Some e, r) \<Longrightarrow> e = MaxTickersReached"
proof (induction cs arbitrary: k txs s)
  case Nil
  then show ?case by simp
next
  case (Cons c cs)
  then show ?case
    by (auto split: if_splits prod.splits option.splits dest: cross_error)
qed

lemma matchOrder_error: "matchOrder a now k s = (Some e, r) \<Longrightarrow> e = MaxTickersReached"
  unfolding matchOrder_def Let_def
  by (auto split: prod.splits if_splits option.splits sum.splits
      dest: matchLoop_error storage_updateOrder_error)

lemma autoFill_error: "autoFill ty a now k s = (Inl e, s') \<Longrightarrow> e = MaxTickersReached"
  by (auto simp: autoFill_def split: prod.splits sum.splits dest: storage_updateOrder_error)

lemma settle_error: "settle ty a now s = (Inl e, s') \<Longrightarrow> e = MaxTickersReached"
  unfolding settle_def
  by (auto split: prod.splits option.splits if_splits dest: matchOrder_error autoFill_error)

lemma addOrder_error:
  "addOrder ty ticker q p now s = (Inl e, s') \<Longrightarrow>
     (validate ty ticker q p s = Some e \<and> s' = s) \<or>
     (validate ty ticker q p s = None \<and> e = MaxTickersReached)"
  unfolding addOrder_def Let_def
  by (auto split: option.splits prod.splits sum.splits dest: storage_addOrder_error settle_error)

text \<open>The storage reads of \<^verbatim>\<open>findOrderById\<close> leave the storage as it is.\<close>

lemma storage_get_registered:
  assumes "ticker \<in> set (getAllTickers st)"
  shows "snd (storage_getBuyOrders ticker st) = st" "snd (storage_getSellOrders ticker st) = st"
proof -
  from assms have "map_of (tickerToIndex st) ticker \<noteq> None"
    by (simp add: getAllTickers_def map_of_eq_None_iff)
  then obtain i where "map_of (tickerToIndex st) ticker = Some i" by auto
  then have "getTickerIndex ticker st = Inr (i, st)" by (simp add: getTickerIndex_def)
  then show "snd (storage_getBuyOrders ticker st) = st"
    "snd (storage_getSellOrders ticker st) = st"
    by (simp_all add: storage_getBuyOrders_def storage_getSellOrders_def)
qed

section \<open>Validation\<close>

lemma validate_error: "validate ty ticker q p s = Some e \<Longrightarrow> e \<noteq> MaxTickersReached"
  by (auto simp: validate_def split: if_splits)

lemma addOrder_invalid:
  "validate ty ticker q p s = Some e \<Longrightarrow> addOrder ty ticker q p now s = (Inl e, s)"
  by (simp add: addOrder_def)

lemma addOrder_Inl_iff:
  "fst (addOrder ty ticker q p now s) = Inl e \<and> e \<noteq> MaxTickersReached \<longleftrightarrow>
     validate ty ticker q p s = Some e"
proof
  assume h: "fst (addOrder ty ticker q p now s) = Inl e \<and> e \<noteq> MaxTickersReached"
  obtain s' where "addOrder ty ticker q p now s = (Inl e, s')"
    using h by (cases "addOrder ty ticker q p now s") auto
  from addOrder_error [OF this] h show "validate ty ticker q p s = Some e" by auto
next
  assume h: "validate ty ticker q p s = Some e"
  with addOrder_invalid [OF h] validate_error [OF h]
  show "fst (addOrder ty ticker q p now s) = Inl e \<and> e \<noteq> MaxTickersReached"
    by simp
qed

text \<open>
  What \<^verbatim>\<open>addOrder\<close> rejects. It throws one of the three parameter errors
  (InvalidOrderParameters) exactly when the quantity is not positive, the price is not
  positive or the symbol trims to the empty string. The checks run in sequence, so the
  error of a Sell with valid parameters is the one of the fourth check: \<^verbatim>\<open>addOrder\<close>
  throws it (InsufficientShares) exactly when the parameters are valid, the order is a
  Sell, and the read of the ledger is undefined or gives an own position with fewer
  shares than the quantity; not when it gives an inherited member. After either
  rejection the engine is the engine before the call: book, ledger, log, counters and
  objects, so no order exists or rests.
\<close>

lemma addOrder_rejection:
  "((\<exists>e. fst (addOrder ty ticker q p now s) = Inl e \<and> InvalidOrderParameters e) \<longleftrightarrow>
      (q \<le> 0 \<or> p \<le> 0 \<or> js_trim ticker = [])) \<and>
   ((\<exists>e. fst (addOrder ty ticker q p now s) = Inl e \<and> InsufficientShares e) \<longleftrightarrow>
      (\<not> (q \<le> 0 \<or> p \<le> 0 \<or> js_trim ticker = []) \<and> ty = Sell \<and>
       (case getProperty (portfolioPositions s) ticker of
          Undefined \<Rightarrow> True
        | Inherited \<Rightarrow> False
        | Own pos \<Rightarrow> shares pos < fl q))) \<and>
   (\<forall>e. fst (addOrder ty ticker q p now s) = Inl e \<and>
        (InvalidOrderParameters e \<or> InsufficientShares e) \<longrightarrow>
        snd (addOrder ty ticker q p now s) = s)"
proof -
  let ?r = "fst (addOrder ty ticker q p now s)"
  have inv: "(\<exists>e. ?r = Inl e \<and> InvalidOrderParameters e) \<longleftrightarrow>
     (\<exists>e. validate ty ticker q p s = Some e \<and> InvalidOrderParameters e)"
    using addOrder_Inl_iff [of ty ticker q p now s]
    by (auto simp: InvalidOrderParameters_def)
  have ins: "(\<exists>e. ?r = Inl e \<and> InsufficientShares e) \<longleftrightarrow>
     validate ty ticker q p s = Some NotEnoughShares"
    using addOrder_Inl_iff [of ty ticker q p now s NotEnoughShares]
    by (auto simp: InsufficientShares_def)
  have unchanged: "snd (addOrder ty ticker q p now s) = s"
    if "?r = Inl e" "InvalidOrderParameters e \<or> InsufficientShares e" for e
  proof -
    from that have "e \<noteq> MaxTickersReached"
      by (auto simp: InvalidOrderParameters_def InsufficientShares_def)
    with that addOrder_Inl_iff [of ty ticker q p now s e]
    have "validate ty ticker q p s = Some e" by simp
    from addOrder_invalid [OF this] show ?thesis by simp
  qed
  have v1: "(\<exists>e. validate ty ticker q p s = Some e \<and> InvalidOrderParameters e) \<longleftrightarrow>
     (q \<le> 0 \<or> p \<le> 0 \<or> js_trim ticker = [])"
    by (simp add: validate_def InvalidOrderParameters_def)
  have v2: "validate ty ticker q p s = Some NotEnoughShares \<longleftrightarrow>
     (\<not> (q \<le> 0 \<or> p \<le> 0 \<or> js_trim ticker = []) \<and> ty = Sell \<and>
      (case getProperty (portfolioPositions s) ticker of
         Undefined \<Rightarrow> True
       | Inherited \<Rightarrow> False
       | Own pos \<Rightarrow> shares pos < fl q))"
    by (simp add: validate_def)
  show ?thesis
    using inv ins unchanged v1 v2 by blast
qed

text \<open>
  A symbol that names no member of \<^verbatim>\<open>Object.prototype\<close> is never read as inherited:
  for these symbols a Sell of a quantity that is a double, with valid parameters, is
  rejected exactly when the shares held are fewer than the quantity.
\<close>

lemma addOrder_rejects_short_sale:
  assumes "ticker \<notin> set Object_prototype_members" "fl q = q"
  shows "(\<exists>e. fst (addOrder Sell ticker q p now s) = Inl e \<and> InsufficientShares e) \<longleftrightarrow>
      (\<not> (q \<le> 0 \<or> p \<le> 0 \<or> js_trim ticker = []) \<and> heldShares s ticker < q)"
proof -
  have "(case getProperty (portfolioPositions s) ticker of
           Undefined \<Rightarrow> True | Inherited \<Rightarrow> False | Own pos \<Rightarrow> shares pos < fl q) \<longleftrightarrow>
        heldShares s ticker < q" if "0 < q"
    using assms that by (simp add: getProperty_def heldShares_def split: option.splits)
  with addOrder_rejection [of Sell ticker q p now s] show ?thesis
    by (auto simp: not_le)
qed

lemma addOrder_rejection_example:
  "fst (addOrder Sell ''MSFT'' 5 60 clock0 new_TradingEngine) = Inl NotEnoughShares \<and>
   snd (addOrder Sell ''MSFT'' 5 60 clock0 new_TradingEngine) = new_TradingEngine"
  by (simp add: addOrder_def validate_def js_trim_def is_ws_def getProperty_def
      Object_prototype_members_def new_TradingEngine_def)

text \<open>A symbol of white space only is rejected, the no-break space included.\<close>

lemma addOrder_blank_example:
  "fst (addOrder Buy [CHR 0x20, CHR 0xA0, CHR 0x09] 1 1 clock0 new_TradingEngine) =
     Inl TickerSymbolRequired"
  by (simp add: addOrder_def validate_def js_trim_def is_ws_def)

section \<open>The ledger\<close>

text \<open>
  \<^verbatim>\<open>updatePortfolio\<close> applies a transaction to the position of its symbol, created with
  no shares if the read of the ledger is undefined. On a buy (and a divisor other than
  zero) the shares become \<open>shares + qty\<close> and the average cost
  \<open>(shares * averageCost + qty * price) / (shares + qty)\<close>, every operation rounded. On a
  sell the position is removed when the rounded \<open>shares - qty\<close> is zero or below, and
  otherwise its shares become that difference with the average cost unchanged. A position
  that remains has its mark price set to the transaction's price. The positions of other
  symbols are untouched. When the read gives an inherited member, the ledger is left as
  it is.
\<close>

lemma updatePortfolio_apply:
  assumes "getProperty (portfolioPositions s) (tx_tickerSymbol tx) \<noteq> Inherited"
  shows
  "(let ticker = tx_tickerSymbol tx; q = fl (tx_quantity tx); p = fl (tx_price tx);
        pos = positionBefore tx s;
        pp' = portfolioPositions (updatePortfolio tx s)
    in (isBuyTransaction tx s \<longrightarrow> fl (shares pos + q) \<noteq> 0 \<longrightarrow>
          pp' ticker = Some (pos\<lparr>shares := fl (shares pos + q),
             averageBuyPrice :=
               fl (fl (fl (shares pos * averageBuyPrice pos) + fl (q * p)) / fl (shares pos + q)),
             currentValue := p\<rparr>)) \<and>
       (\<not> isBuyTransaction tx s \<longrightarrow> fl (shares pos - q) \<le> 0 \<longrightarrow> pp' ticker = None) \<and>
       (\<not> isBuyTransaction tx s \<longrightarrow> 0 < fl (shares pos - q) \<longrightarrow>
          pp' ticker = Some (pos\<lparr>shares := fl (shares pos - q), currentValue := p\<rparr>)) \<and>
       (\<forall>t. t \<noteq> ticker \<longrightarrow> pp' t = portfolioPositions s t))"
  using assms
  by (auto simp: updatePortfolio_def positionBefore_def getProperty_def Let_def
      split: option.splits property.splits if_splits)

text \<open>A sale of at least the shares of the position removes it.\<close>

lemma updatePortfolio_sells_all:
  assumes "getProperty (portfolioPositions s) (tx_tickerSymbol tx) \<noteq> Inherited"
    "\<not> isBuyTransaction tx s" "shares (positionBefore tx s) \<le> fl (tx_quantity tx)"
  shows "portfolioPositions (updatePortfolio tx s) (tx_tickerSymbol tx) = None"
proof -
  from assms(3) have "fl (shares (positionBefore tx s) - fl (tx_quantity tx)) \<le> 0"
    by (intro fl_nonpos) simp
  with updatePortfolio_apply [OF assms(1)] assms(2) show ?thesis
    by (simp add: Let_def)
qed

lemma updatePortfolio_inherited:
  assumes "getProperty (portfolioPositions s) (tx_tickerSymbol tx) = Inherited"
  shows "updatePortfolio tx s = s"
  using assms by (simp add: updatePortfolio_def Let_def)

lemma getProperty_ordinary:
  "ticker \<notin> set Object_prototype_members \<Longrightarrow> getProperty pp ticker \<noteq> Inherited"
  by (simp add: getProperty_def split: option.splits)

lemma getProperty_examples [simp]:
  "getProperty pp ''MSFT'' \<noteq> Inherited" "getProperty pp ''AAPL'' \<noteq> Inherited"
  by (simp_all add: getProperty_ordinary Object_prototype_members_def)

text \<open>
  Selling 5 of 10 shares of MSFT bought at 40 leaves 5 at 40, selling 5 again removes the
  position; a first buy of AAPL, 10 at 50, creates the position.
\<close>

lemma updatePortfolio_examples:
  "\<not> isBuyTransaction msft_sale msft_engine \<and>
   portfolioPositions (updatePortfolio msft_sale msft_engine) ''MSFT'' =
     Some \<lparr>symbol = ''MSFT'', shares = 5, averageBuyPrice = 40, currentValue = 60\<rparr> \<and>
   portfolioPositions (updatePortfolio msft_sale (updatePortfolio msft_sale msft_engine)) ''MSFT'' =
     None \<and>
   isBuyTransaction aapl_fill msft_engine \<and>
   portfolioPositions (updatePortfolio aapl_fill msft_engine) ''AAPL'' =
     Some \<lparr>symbol = ''AAPL'', shares = 10, averageBuyPrice = 50, currentValue = 50\<rparr> \<and>
   portfolioPositions (updatePortfolio aapl_fill msft_engine) ''MSFT'' =
     portfolioPositions msft_engine ''MSFT''"
proof -
  have sale: "\<not> isBuyTransaction msft_sale s" for s
    by (simp add: isBuyTransaction_def msft_sale_def)
  have fill: "isBuyTransaction aapl_fill s" for s
    by (simp add: isBuyTransaction_def aapl_fill_def)
  have t: "tx_tickerSymbol msft_sale = ''MSFT''" "tx_tickerSymbol aapl_fill = ''AAPL''"
    by (simp_all add: msft_sale_def aapl_fill_def)
  have p0: "positionBefore msft_sale msft_engine =
      \<lparr>symbol = ''MSFT'', shares = 10, averageBuyPrice = 40, currentValue = 40\<rparr>"
    by (simp add: positionBefore_def msft_sale_def msft_engine_def)
  have p2: "positionBefore aapl_fill msft_engine =
      \<lparr>symbol = ''AAPL'', shares = 0, averageBuyPrice = 0, currentValue = 50\<rparr>"
    by (simp add: positionBefore_def aapl_fill_def msft_engine_def new_TradingEngine_def)
  have a1: "portfolioPositions (updatePortfolio msft_sale msft_engine) ''MSFT'' =
     Some \<lparr>symbol = ''MSFT'', shares = 5, averageBuyPrice = 40, currentValue = 60\<rparr>"
    using updatePortfolio_apply [of msft_engine msft_sale] sale p0
    by (simp add: Let_def t) (simp add: msft_sale_def)
  have p1: "positionBefore msft_sale (updatePortfolio msft_sale msft_engine) =
      \<lparr>symbol = ''MSFT'', shares = 5, averageBuyPrice = 40, currentValue = 60\<rparr>"
    using a1 by (simp add: positionBefore_def t)
  have a2: "portfolioPositions
      (updatePortfolio msft_sale (updatePortfolio msft_sale msft_engine)) ''MSFT'' = None"
    using updatePortfolio_apply [of "updatePortfolio msft_sale msft_engine" msft_sale] sale p1
    by (simp add: Let_def t) (simp add: msft_sale_def)
  have a3: "portfolioPositions (updatePortfolio aapl_fill msft_engine) ''AAPL'' =
     Some \<lparr>symbol = ''AAPL'', shares = 10, averageBuyPrice = 50, currentValue = 50\<rparr> \<and>
   portfolioPositions (updatePortfolio aapl_fill msft_engine) ''MSFT'' =
     portfolioPositions msft_engine ''MSFT''"
    using updatePortfolio_apply [of msft_engine aapl_fill] fill p2
    by (simp add: Let_def t) (simp add: aapl_fill_def)
  show ?thesis using sale fill a1 a2 a3 by simp
qed

text \<open>
  Buying 1 at 10 and then 2 at 20 gives 3 shares at the double nearest to 50 / 3, which
  the code prints as 16.666666666666668.
\<close>

lemma updatePortfolio_rounds:
  "portfolioPositions (updatePortfolio buy_2_at_20 (updatePortfolio buy_1_at_10 new_TradingEngine))
     ''AAPL'' =
   Some \<lparr>symbol = ''AAPL'', shares = 3,
     averageBuyPrice = 4691249611844267 / 281474976710656, currentValue = 20\<rparr>"
proof -
  have b: "isBuyTransaction buy_1_at_10 s" "isBuyTransaction buy_2_at_20 s" for s
    by (simp_all add: isBuyTransaction_def buy_1_at_10_def buy_2_at_20_def)
  have t: "tx_tickerSymbol buy_1_at_10 = ''AAPL''" "tx_tickerSymbol buy_2_at_20 = ''AAPL''"
    by (simp_all add: buy_1_at_10_def buy_2_at_20_def)
  have p0: "positionBefore buy_1_at_10 new_TradingEngine =
      \<lparr>symbol = ''AAPL'', shares = 0, averageBuyPrice = 0, currentValue = 10\<rparr>"
    by (simp add: positionBefore_def buy_1_at_10_def new_TradingEngine_def)
  have a1: "portfolioPositions (updatePortfolio buy_1_at_10 new_TradingEngine) ''AAPL'' =
     Some \<lparr>symbol = ''AAPL'', shares = 1, averageBuyPrice = 10, currentValue = 10\<rparr>"
    using updatePortfolio_apply [of new_TradingEngine buy_1_at_10] b p0
    by (simp add: Let_def t) (simp add: buy_1_at_10_def)
  have p1: "positionBefore buy_2_at_20 (updatePortfolio buy_1_at_10 new_TradingEngine) =
      \<lparr>symbol = ''AAPL'', shares = 1, averageBuyPrice = 10, currentValue = 10\<rparr>"
    using a1 by (simp add: positionBefore_def t)
  show ?thesis
    using updatePortfolio_apply [of "updatePortfolio buy_1_at_10 new_TradingEngine" buy_2_at_20]
      b p1
    by (simp add: Let_def t) (simp add: buy_2_at_20_def fl_quotient_example)
qed

section \<open>Sorting\<close>

lemma insort_cmp_key:
  assumes "\<And>x y. cmp x y \<le> 0 \<longleftrightarrow> f x \<le> f y"
  shows "insort_cmp cmp x xs = insort_key f x xs"
  by (induction xs) (simp_all add: assms)

lemma js_sort_key:
  assumes "\<And>x y. cmp x y \<le> 0 \<longleftrightarrow> f x \<le> f y"
  shows "js_sort cmp xs = sort_key f xs"
  by (induction xs) (simp_all add: js_sort_def insort_cmp_key [OF assms])

section \<open>The transaction log\<close>

lemma recent_sort:
  "js_sort (\<lambda>a b. tx_timestamp b - tx_timestamp a) xs = sort_key (\<lambda>x. - tx_timestamp x) xs"
  by (rule js_sort_key) simp

lemma getRecentTransactions_nat:
  "getRecentTransactions (int n) s = take n (sort_key (\<lambda>x. - tx_timestamp x) (transactions s))"
  by (simp add: getRecentTransactions_def js_slice0_def recent_sort)

text \<open>A negative count leaves out that many of the last transactions of the sorted log.\<close>

lemma getRecentTransactions_negative:
  "n < 0 \<Longrightarrow>
     getRecentTransactions n s =
       take (nat (int (length (transactions s)) + n))
         (sort_key (\<lambda>x. - tx_timestamp x) (transactions s))"
  by (simp add: getRecentTransactions_def js_slice0_def recent_sort)

lemma sorted_desc_sort:
  "sorted_wrt (\<lambda>a b. tx_timestamp b \<le> tx_timestamp a) (sort_key (\<lambda>x. - tx_timestamp x) xs)"
proof -
  have "sorted (map (\<lambda>x. - tx_timestamp x) (sort_key (\<lambda>x. - tx_timestamp x) xs))"
    by (rule sorted_sort_key)
  then show ?thesis
    by (simp add: sorted_map)
qed

lemma filter_take_prefix: "prefix (filter P (take n xs)) (filter P xs)"
proof -
  have "filter P xs = filter P (take n xs) @ filter P (drop n xs)"
    by (metis append_take_drop_id filter_append)
  then show ?thesis by (simp add: prefix_def)
qed

text \<open>
  C8. For every count \<open>n\<close>, \<^verbatim>\<open>getRecentTransactions(n)\<close> returns \<open>min n (length log)\<close>
  transactions, so at most \<open>n\<close>; they are in descending order of time; they are the
  greatest of the log (with the rest they make up the log, and no transaction of the
  rest is later than one returned); and the transactions of one time come in their
  order of insertion, the earliest inserted being the ones returned.
\<close>

theorem getRecentTransactions_top:
  fixes n :: nat
  shows
  "(let r = getRecentTransactions (int n) s; L = transactions s
    in length r \<le> n \<and> length r = min n (length L) \<and>
       sorted_wrt (\<lambda>a b. tx_timestamp b \<le> tx_timestamp a) r \<and>
       (\<exists>rest. mset (r @ rest) = mset L \<and>
          (\<forall>x \<in> set r. \<forall>y \<in> set rest. tx_timestamp y \<le> tx_timestamp x)) \<and>
       (\<forall>t. prefix (filter (\<lambda>x. tx_timestamp x = t) r) (filter (\<lambda>x. tx_timestamp x = t) L)))"
proof -
  let ?S = "sort_key (\<lambda>x. - tx_timestamp x) (transactions s)"
  have r: "getRecentTransactions (int n) s = take n ?S"
    by (rule getRecentTransactions_nat)
  have len: "length (take n ?S) = min n (length (transactions s))"
    by simp
  have srt: "sorted_wrt (\<lambda>a b. tx_timestamp b \<le> tx_timestamp a) ?S"
    by (rule sorted_desc_sort)
  have srt_take: "sorted_wrt (\<lambda>a b. tx_timestamp b \<le> tx_timestamp a) (take n ?S)"
    using srt by (rule sorted_wrt_take)
  have split: "take n ?S @ drop n ?S = ?S" by simp
  have perm: "mset (take n ?S @ drop n ?S) = mset (transactions s)"
    unfolding split by simp
  have top: "\<forall>x \<in> set (take n ?S). \<forall>y \<in> set (drop n ?S). tx_timestamp y \<le> tx_timestamp x"
  proof -
    have "sorted_wrt (\<lambda>a b. tx_timestamp b \<le> tx_timestamp a) (take n ?S @ drop n ?S)"
      using srt by (simp only: append_take_drop_id)
    then show ?thesis
      unfolding sorted_wrt_append by blast
  qed
  have stab: "prefix (filter (\<lambda>x. tx_timestamp x = t) (take n ?S))
                     (filter (\<lambda>x. tx_timestamp x = t) (transactions s))" for t
  proof -
    have "filter (\<lambda>x. - tx_timestamp x = - t) ?S =
          filter (\<lambda>x. - tx_timestamp x = - t) (transactions s)"
      by (rule sort_key_stable)
    then have "filter (\<lambda>x. tx_timestamp x = t) ?S =
               filter (\<lambda>x. tx_timestamp x = t) (transactions s)"
      by simp
    with filter_take_prefix [of "\<lambda>x. tx_timestamp x = t" n ?S] show ?thesis by simp
  qed
  have len_le: "length (take n ?S) \<le> n" by simp
  show ?thesis
    unfolding Let_def r using len len_le srt_take perm top stab by blast
qed

theorem getRecentTransactions_top_witness:
  "getRecentTransactions 2 log_engine = [log_tx ''tx-7-1'' 7, log_tx ''tx-5-0'' 5] \<and>
   length (getRecentTransactions 2 log_engine) \<le> 2 \<and>
   prefix (filter (\<lambda>x. tx_timestamp x = 5) (getRecentTransactions 2 log_engine))
          (filter (\<lambda>x. tx_timestamp x = 5) (transactions log_engine))"
proof -
  have r: "getRecentTransactions 2 log_engine = [log_tx ''tx-7-1'' 7, log_tx ''tx-5-0'' 5]"
    by (simp add: getRecentTransactions_def js_slice0_def js_sort_def log_engine_def
        log_tx_def new_TradingEngine_def)
  from getRecentTransactions_top [of 2 log_engine] r
  show ?thesis by (simp add: Let_def)
qed

section \<open>The symbol registry\<close>

lemma firstSeen_snoc:
  "firstSeen (ts @ [t]) = (if t \<in> set (firstSeen ts) then firstSeen ts else firstSeen ts @ [t])"
  by (simp add: firstSeen_def)

lemma firstSeen_Nil: "firstSeen [] = []"
  by (simp add: firstSeen_def)

lemma distinct_firstSeen: "distinct (firstSeen ts)"
  by (induction ts rule: rev_induct) (simp_all add: firstSeen_snoc firstSeen_Nil)

lemma set_firstSeen: "set (firstSeen ts) = set ts"
  by (induction ts rule: rev_induct) (auto simp: firstSeen_snoc firstSeen_Nil)

lemma firstSeen_prefix: "prefix (firstSeen xs) (firstSeen (xs @ ys))"
proof (induction ys rule: rev_induct)
  case Nil
  then show ?case by simp
next
  case (snoc y ys)
  have "prefix (firstSeen (xs @ ys)) (firstSeen ((xs @ ys) @ [y]))"
    unfolding firstSeen_snoc by simp
  with snoc show ?case
    by (metis append.assoc prefix_order.order_trans)
qed

lemma map_of_registry_in:
  assumes "distinct F" "i < length F"
  shows "map_of (zip F [0..<length F]) (F ! i) = Some i"
  using map_of_zip_nth [of F "[0..<length F]" i] assms by simp

lemma map_of_registry_out:
  assumes "t \<notin> set F"
  shows "map_of (zip F [0..<length F]) t = None"
  using assms by (simp add: map_of_zip_is_None)

lemma getTickerIndex_registry:
  assumes "distinct F" "length F \<le> MAX_TICKERS"
  shows "getTickerIndex t (registry F) =
     (if t \<in> set F then Inr (THE i. i < length F \<and> F ! i = t, registry F)
      else if length F < MAX_TICKERS then Inr (length F, registry (F @ [t]))
      else Inl MaxTickersReached)"
proof (cases "t \<in> set F")
  case True
  then obtain i where i: "i < length F" "F ! i = t"
    by (auto simp: in_set_conv_nth)
  have u: "(THE j. j < length F \<and> F ! j = t) = i"
    using i assms(1) by (auto simp: nth_eq_iff_index_eq)
  show ?thesis
    using True i u map_of_registry_in [OF assms(1) i(1)]
    by (simp add: getTickerIndex_def registry_def new_OrderStorage_def)
next
  case False
  then show ?thesis
    by (simp add: getTickerIndex_def registry_def map_of_registry_out [OF False]
        new_OrderStorage_def)
qed

lemma resolve_registry:
  assumes "distinct F" "length F \<le> MAX_TICKERS"
  shows "resolve t (registry F) =
     (if t \<notin> set F \<and> length F < MAX_TICKERS then registry (F @ [t]) else registry F)"
  by (simp add: resolve_def getTickerIndex_registry [OF assms])

lemma fold_resolve_registry:
  "fold resolve ts new_OrderStorage = registry (take MAX_TICKERS (firstSeen ts))"
proof (induction ts rule: rev_induct)
  case Nil
  then show ?case by (simp add: registry_def firstSeen_Nil new_OrderStorage_def)
next
  case (snoc t ts)
  let ?fs = "firstSeen ts"
  let ?F = "take MAX_TICKERS ?fs"
  have d: "distinct ?F" using distinct_firstSeen by (rule distinct_take)
  have l: "length ?F \<le> MAX_TICKERS" by simp
  have step: "fold resolve (ts @ [t]) new_OrderStorage = resolve t (registry ?F)"
    using snoc by simp
  show ?case
  proof (cases "t \<in> set ?fs")
    case True
    then have fs: "firstSeen (ts @ [t]) = ?fs" by (simp add: firstSeen_snoc)
    show ?thesis
    proof (cases "t \<in> set ?F")
      case True
      then show ?thesis
        unfolding step fs by (simp add: resolve_registry [OF d l])
    next
      case False
      with True have "\<not> length ?fs \<le> MAX_TICKERS" by auto
      then have "\<not> length ?F < MAX_TICKERS" by simp
      with False show ?thesis
        unfolding step fs by (simp add: resolve_registry [OF d l])
    qed
  next
    case False
    then have fs: "firstSeen (ts @ [t]) = ?fs @ [t]" by (simp add: firstSeen_snoc)
    from False have nin: "t \<notin> set ?F" by (auto dest: in_set_takeD)
    show ?thesis
    proof (cases "length ?fs < MAX_TICKERS")
      case True
      then have l': "length ?fs \<le> MAX_TICKERS" by simp
      from True False show ?thesis
        unfolding step fs by (simp add: resolve_registry [OF distinct_firstSeen l'])
    next
      case False
      then have "\<not> length ?F < MAX_TICKERS" by simp
      with False nin show ?thesis
        unfolding step fs by (simp add: resolve_registry [OF d l])
    qed
  qed
qed


lemma getAllTickers_registry: "getAllTickers (registry F) = F"
  by (simp add: getAllTickers_def registry_def)

lemma resolved_registry_in:
  assumes "distinct F" "length F \<le> MAX_TICKERS" "i < length F"
  shows "resolved (F ! i) (registry F) = Inr i"
proof -
  have "(THE j. j < length F \<and> F ! j = F ! i) = i"
    using assms by (auto simp: nth_eq_iff_index_eq)
  then show ?thesis
    using assms by (simp add: resolved_def getTickerIndex_registry [OF assms(1,2)])
qed

lemma resolved_registry_out:
  assumes "distinct F" "length F \<le> MAX_TICKERS" "t \<notin> set F"
  shows "resolved t (registry F) =
     (if length F < MAX_TICKERS then Inr (length F) else Inl MaxTickersReached)"
  using assms by (simp add: resolved_def getTickerIndex_registry [OF assms(1,2)])

lemma prefix_nth: "prefix xs ys \<Longrightarrow> i < length xs \<Longrightarrow> ys ! i = xs ! i"
  by (auto simp: prefix_def nth_append)

lemma resolved_in_run:
  assumes j: "j < length ts"
  shows "\<exists>i < length (firstSeen ts). firstSeen ts ! i = ts ! j \<and>
     resolved (ts ! j) (fold resolve (take j ts) new_OrderStorage) =
       (if i < MAX_TICKERS then Inr i else Inl MaxTickersReached)"
proof -
  let ?pre = "take j ts"
  let ?t = "ts ! j"
  let ?fp = "firstSeen ?pre"
  let ?F = "take MAX_TICKERS ?fp"
  have st: "fold resolve ?pre new_OrderStorage = registry ?F"
    by (rule fold_resolve_registry)
  have d: "distinct ?F" using distinct_firstSeen by (rule distinct_take)
  have l: "length ?F \<le> MAX_TICKERS" by simp
  have ts1: "take (Suc j) ts = ?pre @ [?t]"
    using j by (simp add: take_Suc_conv_app_nth)
  have e1: "(?pre @ [?t]) @ drop (Suc j) ts = ts"
    by (metis ts1 append_take_drop_id)
  have pre1: "prefix (firstSeen (?pre @ [?t])) (firstSeen ts)"
    using firstSeen_prefix [of "?pre @ [?t]" "drop (Suc j) ts"] unfolding e1 .
  have "prefix ?fp (firstSeen (?pre @ drop j ts))"
    by (rule firstSeen_prefix)
  then have pre0: "prefix ?fp (firstSeen ts)"
    by (simp only: append_take_drop_id)
  show ?thesis
  proof (cases "?t \<in> set ?fp")
    case True
    then obtain i where i: "i < length ?fp" "?fp ! i = ?t"
      by (auto simp: in_set_conv_nth)
    have i_all: "i < length (firstSeen ts)" "firstSeen ts ! i = ?t"
      using prefix_nth [OF pre0 i(1)] i prefix_length_le [OF pre0] by auto
    show ?thesis
    proof (cases "i < MAX_TICKERS")
      case True
      with i have "i < length ?F" "?F ! i = ?t" by simp_all
      with resolved_registry_in [OF d l \<open>i < length ?F\<close>]
      have "resolved ?t (registry ?F) = Inr i" by simp
      with True i_all show ?thesis unfolding st by auto
    next
      case False
      have "?t \<notin> set ?F"
      proof
        assume "?t \<in> set ?F"
        then obtain m where m: "m < length ?F" "?F ! m = ?t"
          by (auto simp: in_set_conv_nth)
        then have "m < length ?fp" "?fp ! m = ?t" "m < MAX_TICKERS" by simp_all
        with i distinct_firstSeen [of ?pre] have "m = i"
          by (metis nth_eq_iff_index_eq)
        with \<open>m < MAX_TICKERS\<close> False show False by simp
      qed
      moreover from False i have "\<not> length ?F < MAX_TICKERS" by simp
      ultimately have "resolved ?t (registry ?F) = Inl MaxTickersReached"
        using resolved_registry_out [OF d l, of ?t] by simp
      with False i_all show ?thesis unfolding st by auto
    qed
  next
    case False
    then have fs1: "firstSeen (?pre @ [?t]) = ?fp @ [?t]"
      by (simp add: firstSeen_snoc)
    let ?i = "length ?fp"
    have i_all: "?i < length (firstSeen ts)" "firstSeen ts ! ?i = ?t"
      using prefix_nth [OF pre1, of ?i] prefix_length_le [OF pre1] unfolding fs1 by auto
    from False have nin: "?t \<notin> set ?F" by (auto dest: in_set_takeD)
    have "resolved ?t (registry ?F) =
       (if ?i < MAX_TICKERS then Inr ?i else Inl MaxTickersReached)"
      using resolved_registry_out [OF d l nin] by auto
    with i_all show ?thesis unfolding st by blast
  qed
qed

text \<open>
  C9. In every run of the registry from the empty one, each call returns the rank of its
  symbol among the distinct symbols in order of first occurrence (the value of the
  counter when the symbol was first seen, and the same slot at every later call) as long
  as that rank is below \<open>MAX_TICKERS = 1024\<close>, and throws (CapacityExceeded) for every
  symbol of rank 1024 or more; \<^verbatim>\<open>getAllTickers\<close> lists the first 1024 distinct symbols
  in order of first occurrence.
\<close>

theorem registry_slots:
  "MAX_TICKERS = 1024 \<and> CapacityExceeded MaxTickersReached \<and>
   (\<forall>j < length ts. \<exists>i < length (firstSeen ts). firstSeen ts ! i = ts ! j \<and>
       resolved (ts ! j) (fold resolve (take j ts) new_OrderStorage) =
         (if i < MAX_TICKERS then Inr i else Inl MaxTickersReached)) \<and>
   getAllTickers (fold resolve ts new_OrderStorage) = take MAX_TICKERS (firstSeen ts)"
  using resolved_in_run [of _ ts]
  by (simp add: fold_resolve_registry getAllTickers_registry MAX_TICKERS_def
      CapacityExceeded_def)

theorem registry_slots_witness:
  "firstSeen [''AAPL'', ''MSFT'', ''AAPL''] = [''AAPL'', ''MSFT''] \<and>
   resolved ''AAPL'' (fold resolve [''AAPL'', ''MSFT''] new_OrderStorage) = Inr 0 \<and>
   resolved ''MSFT'' (fold resolve [''AAPL''] new_OrderStorage) = Inr 1 \<and>
   getAllTickers (fold resolve [''AAPL'', ''MSFT'', ''AAPL''] new_OrderStorage) = [''AAPL'', ''MSFT'']"
proof -
  have fs: "firstSeen [''AAPL'', ''MSFT'', ''AAPL''] = [''AAPL'', ''MSFT'']"
    by (simp add: firstSeen_def)
  have r2: "resolved ''AAPL'' (fold resolve [''AAPL'', ''MSFT''] new_OrderStorage) = Inr 0"
    by (simp add: resolved_def resolve_def getTickerIndex_def new_OrderStorage_def MAX_TICKERS_def)
  have r1: "resolved ''MSFT'' (fold resolve [''AAPL''] new_OrderStorage) = Inr 1"
    by (simp add: resolved_def resolve_def getTickerIndex_def new_OrderStorage_def MAX_TICKERS_def)
  from registry_slots [of "[''AAPL'', ''MSFT'', ''AAPL'']"] fs r1 r2
  show ?thesis by (simp add: MAX_TICKERS_def)
qed

section \<open>Order ids\<close>

lemma of_char_digit: "d < 10 \<Longrightarrow> of_char (digit_char d) = (48 + d :: nat)"
proof -
  assume d: "d < 10"
  have "of_char (digit_char d) = ((48 + d) mod 256 :: nat)"
    unfolding digit_char_def by (rule of_char_of)
  also have "\<dots> = 48 + d" using d by simp
  finally show ?thesis .
qed

lemma digit_char_not_minus: "d < 10 \<Longrightarrow> digit_char d \<noteq> CHR ''-''"
proof
  assume d: "d < 10" and e: "digit_char d = CHR ''-''"
  have m: "of_char (CHR ''-'') = (45 :: nat)" by simp
  have "(48 + d :: nat) = of_char (digit_char d)"
    using of_char_digit [OF d] by (rule sym)
  also have "\<dots> = 45" unfolding e by (rule m)
  finally show False by arith
qed

lemma digit_char_inj: "d < 10 \<Longrightarrow> d' < 10 \<Longrightarrow> digit_char d = digit_char d' \<Longrightarrow> d = d'"
proof -
  assume d: "d < 10" "d' < 10" and e: "digit_char d = digit_char d'"
  have "(48 + d :: nat) = of_char (digit_char d)"
    using of_char_digit [OF d(1)] by (rule sym)
  also have "\<dots> = 48 + d'" unfolding e by (rule of_char_digit [OF d(2)])
  finally show ?thesis by arith
qed

lemma show_nat_not_Nil: "show_nat n \<noteq> []"
  by (subst show_nat.simps) simp

lemma show_nat_no_minus: "CHR ''-'' \<notin> set (show_nat n)"
proof (induction n rule: show_nat.induct)
  case (1 n)
  show ?case
  proof (cases "n < 10")
    case True
    then show ?thesis
      using digit_char_not_minus [of n] by (subst show_nat.simps) auto
  next
    case False
    then have "n mod 10 < 10" by simp
    with False 1 show ?thesis
      using digit_char_not_minus [of "n mod 10"] by (subst show_nat.simps) auto
  qed
qed

lemma show_nat_inj: "show_nat n = show_nat m \<Longrightarrow> n = m"
proof (induction n arbitrary: m rule: show_nat.induct)
  case (1 n)
  show ?case
  proof (cases "n < 10")
    case n: True
    show ?thesis
    proof (cases "m < 10")
      case True
      with n 1(2) show ?thesis
        by (simp add: show_nat.simps [of n] show_nat.simps [of m] digit_char_inj)
    next
      case False
      with n 1(2) show_nat_not_Nil [of "m div 10"] show ?thesis
        by (simp add: show_nat.simps [of n] show_nat.simps [of m])
    qed
  next
    case n: False
    show ?thesis
    proof (cases "m < 10")
      case True
      with n 1(2) show_nat_not_Nil [of "n div 10"] show ?thesis
        by (simp add: show_nat.simps [of n] show_nat.simps [of m])
    next
      case False
      with n 1(2) have e: "show_nat (n div 10) = show_nat (m div 10)"
        "digit_char (n mod 10) = digit_char (m mod 10)"
        by (simp_all add: show_nat.simps [of n] show_nat.simps [of m])
      from 1(1) [OF n e(1)] have "n div 10 = m div 10" .
      moreover from e(2) have "n mod 10 = m mod 10"
        by (rule digit_char_inj [rotated 2]) simp_all
      ultimately show ?thesis
        by (metis div_mult_mod_eq)
    qed
  qed
qed

lemma counter_suffix:
  "takeWhile (\<lambda>c. c \<noteq> CHR ''-'') (rev (pre @ CHR ''-'' # show_nat n)) = rev (show_nat n)"
proof -
  have "\<forall>c \<in> set (rev (show_nat n)). c \<noteq> CHR ''-''"
    using show_nat_no_minus [of n] by auto
  then have "takeWhile (\<lambda>c. c \<noteq> CHR ''-'') (rev (show_nat n) @ CHR ''-'' # rev pre) =
      rev (show_nat n) @ takeWhile (\<lambda>c. c \<noteq> CHR ''-'') (CHR ''-'' # rev pre)"
    by (intro takeWhile_append2) simp
  then show ?thesis
    by simp
qed

lemma order_id_inj: "order_id t n = order_id t' n' \<Longrightarrow> n = n'"
proof -
  assume e: "order_id t n = order_id t' n'"
  have "order_id t n = (''order-'' @ show_int t) @ CHR ''-'' # show_nat n" for t n
    by (simp add: order_id_def)
  with e have "(''order-'' @ show_int t) @ CHR ''-'' # show_nat n =
               (''order-'' @ show_int t') @ CHR ''-'' # show_nat n'"
    by simp
  then have "rev (show_nat n) = rev (show_nat n')"
    using counter_suffix [of "''order-'' @ show_int t" n]
      counter_suffix [of "''order-'' @ show_int t'" n']
    by simp
  then show ?thesis
    by (simp add: show_nat_inj)
qed

lemma order_id_not_sentinel: "order_id t n \<noteq> ''auto-filled''" "order_id t n \<noteq> ''market''"
  by (simp_all add: order_id_def)

section \<open>The fields that are never assigned\<close>

lemma static_nth:
  assumes "map static h' = map static h" "r < length h"
  shows "static (h' ! r) = static (h ! r)"
proof -
  have l: "length h' = length h" using assms(1) by (rule map_eq_imp_length_eq)
  have "static (h' ! r) = map static h' ! r" using l assms(2) by simp
  also have "\<dots> = map static h ! r" by (simp only: assms(1))
  also have "\<dots> = static (h ! r)" using assms(2) by simp
  finally show ?thesis .
qed

lemma static_length: "map static h' = map static h \<Longrightarrow> length h' = length h"
  by (rule map_eq_imp_length_eq)

lemma static_agree: "map static h' = map static h \<Longrightarrow> agree h h'"
  using static_nth [of h' h] static_length [of h' h] by (simp add: agree_def)

lemma append_agree: "agree h (h @ xs)"
  by (simp add: agree_def nth_append)

lemma static_fields:
  assumes "static x = static y"
  shows "oid x = oid y" "otype x = otype y" "tickerSymbol x = tickerSymbol y"
    "quantity x = quantity y" "price x = price y" "timestamp x = timestamp y"
  using assms by (simp_all add: static_def)

lemma agree_fields:
  assumes "agree h h'" "r < length h"
  shows "oid (h' ! r) = oid (h ! r)" "otype (h' ! r) = otype (h ! r)"
    "tickerSymbol (h' ! r) = tickerSymbol (h ! r)" "quantity (h' ! r) = quantity (h ! r)"
    "price (h' ! r) = price (h ! r)" "timestamp (h' ! r) = timestamp (h ! r)"
proof -
  from assms have "static (h' ! r) = static (h ! r)" by (simp add: agree_def)
  from static_fields [OF this] show
    "oid (h' ! r) = oid (h ! r)" "otype (h' ! r) = otype (h ! r)"
    "tickerSymbol (h' ! r) = tickerSymbol (h ! r)" "quantity (h' ! r) = quantity (h ! r)"
    "price (h' ! r) = price (h ! r)" "timestamp (h' ! r) = timestamp (h ! r)" .
qed

lemma static_oids: "map static h' = map static h \<Longrightarrow> map oid h' = map oid h"
proof -
  assume "map static h' = map static h"
  then have "map fst (map static h') = map fst (map static h)" by simp
  then show ?thesis by (simp add: static_def comp_def)
qed

lemma filed_agree:
  assumes "agree h h'" "filed h st ty r"
  shows "filed h' st ty r"
proof -
  from assms(2) have r: "r < length h" by (simp add: filed_def)
  with assms(1) have r': "r < length h'" by (simp add: agree_def)
  show ?thesis
    using assms(2) r' agree_fields(2,3) [OF assms(1) r] by (simp add: filed_def)
qed

lemma sorted_bids_agree:
  assumes "agree h h'" "\<forall>r \<in> set rs. r < length h" "sorted_bids h rs"
  shows "sorted_bids h' rs"
  unfolding sorted_bids_def
proof (rule sorted_wrt_mono_rel [OF _ assms(3) [unfolded sorted_bids_def]])
  fix a b assume "a \<in> set rs" "b \<in> set rs" "bid_before (h ! a) (h ! b)"
  with assms(2) agree_fields(5,6) [OF assms(1)]
  show "bid_before (h' ! a) (h' ! b)" by (simp add: bid_before_def)
qed

lemma sorted_asks_agree:
  assumes "agree h h'" "\<forall>r \<in> set rs. r < length h" "sorted_asks h rs"
  shows "sorted_asks h' rs"
  unfolding sorted_asks_def
proof (rule sorted_wrt_mono_rel [OF _ assms(3) [unfolded sorted_asks_def]])
  fix a b assume "a \<in> set rs" "b \<in> set rs" "ask_before (h ! a) (h ! b)"
  with assms(2) agree_fields(5,6) [OF assms(1)]
  show "ask_before (h' ! a) (h' ! b)" by (simp add: ask_before_def)
qed

lemma storage_wf_agree:
  assumes e: "agree h h'" and w: "storage_wf h st"
  shows "storage_wf h' st"
proof -
  have fb: "\<forall>i < MAX_TICKERS. \<forall>r \<in> set (buyOrders st ! i). filed h st Buy r"
    and fs: "\<forall>i < MAX_TICKERS. \<forall>r \<in> set (sellOrders st ! i). filed h st Sell r"
    and sb: "\<forall>i < MAX_TICKERS. sorted_bids h (buyOrders st ! i)"
    and ss: "\<forall>i < MAX_TICKERS. sorted_asks h (sellOrders st ! i)"
    using w by (simp_all add: storage_wf_def)
  have fb': "\<forall>i < MAX_TICKERS. \<forall>r \<in> set (buyOrders st ! i). filed h' st Buy r"
    using fb filed_agree [OF e] by blast
  have fs': "\<forall>i < MAX_TICKERS. \<forall>r \<in> set (sellOrders st ! i). filed h' st Sell r"
    using fs filed_agree [OF e] by blast
  have sb': "\<forall>i < MAX_TICKERS. sorted_bids h' (buyOrders st ! i)"
  proof (intro allI impI)
    fix i assume i: "i < MAX_TICKERS"
    with fb have "\<forall>r \<in> set (buyOrders st ! i). r < length h" by (simp add: filed_def)
    with sb i show "sorted_bids h' (buyOrders st ! i)"
      using sorted_bids_agree [OF e] by blast
  qed
  have ss': "\<forall>i < MAX_TICKERS. sorted_asks h' (sellOrders st ! i)"
  proof (intro allI impI)
    fix i assume i: "i < MAX_TICKERS"
    with fs have "\<forall>r \<in> set (sellOrders st ! i). r < length h" by (simp add: filed_def)
    with ss i show "sorted_asks h' (sellOrders st ! i)"
      using sorted_asks_agree [OF e] by blast
  qed
  show ?thesis
    using w fb' fs' sb' ss' by (simp add: storage_wf_def)
qed

lemma replaceById_same:
  assumes "distinct (map oid h)" "c < length h" "\<forall>r \<in> set rs. r < length h"
  shows "replaceById h c rs = rs"
  using assms(3)
proof (induction rs)
  case Nil
  then show ?case by simp
next
  case (Cons r rs)
  have "oid (h ! r) = oid (h ! c) \<Longrightarrow> r = c"
  proof -
    assume "oid (h ! r) = oid (h ! c)"
    moreover from Cons.prems have "r < length h" by simp
    ultimately show "r = c"
      using assms(1,2) by (metis nth_eq_iff_index_eq length_map nth_map)
  qed
  with Cons show ?case by auto
qed

lemma getTickerIndex_registered:
  "map_of (tickerToIndex st) t = Some i \<Longrightarrow> getTickerIndex t st = Inr (i, st)"
  by (simp add: getTickerIndex_def)

lemma slot_in_range:
  assumes "storage_wf h st" "map_of (tickerToIndex st) t = Some i"
  shows "i < MAX_TICKERS"
proof -
  from assms(2) have "(t, i) \<in> set (tickerToIndex st)" by (rule map_of_SomeD)
  with assms(1) show ?thesis by (auto simp: storage_wf_def)
qed

lemma storage_updateOrder_same:
  assumes w: "storage_wf h st" and d: "distinct (map oid h)"
    and c: "c < length h" "map_of (tickerToIndex st) (tickerSymbol (h ! c)) \<noteq> None"
  shows "storage_updateOrder h c st = Inr st"
proof -
  from c(2) obtain i where i: "map_of (tickerToIndex st) (tickerSymbol (h ! c)) = Some i"
    by auto
  have r: "i < MAX_TICKERS" using slot_in_range [OF w i] .
  have "\<forall>r \<in> set (buyOrders st ! i). r < length h" "\<forall>r \<in> set (sellOrders st ! i). r < length h"
    using w r by (simp_all add: storage_wf_def filed_def)
  then have "replaceById h c (buyOrders st ! i) = buyOrders st ! i"
    "replaceById h c (sellOrders st ! i) = sellOrders st ! i"
    using replaceById_same [OF d c(1)] by simp_all
  then show ?thesis
    by (simp add: storage_updateOrder_def getTickerIndex_registered [OF i])
qed

section \<open>The matcher\<close>

lemma length_subRemaining [simp]: "length (subRemaining r m h) = length h"
  by (simp add: subRemaining_def)

lemma length_setStatus [simp]: "length (setStatus r v h) = length h"
  by (simp add: setStatus_def)

lemma static_update:
  assumes "static x = static (h ! r)"
  shows "map static (h[r := x]) = map static h"
proof (cases "r < length h")
  case True
  have "map static (h[r := x]) = (map static h)[r := static (h ! r)]"
    by (simp add: map_update assms)
  also have "\<dots> = map static h"
    using True by (metis list_update_id nth_map)
  finally show ?thesis .
next
  case False
  then have "h[r := x] = h" by (simp add: list_update_beyond not_less)
  then show ?thesis by simp
qed

lemma static_subRemaining [simp]: "map static (subRemaining r m h) = map static h"
  unfolding subRemaining_def by (rule static_update) (simp add: static_def)

lemma static_setStatus [simp]: "map static (setStatus r v h) = map static h"
  unfolding setStatus_def by (rule static_update) (simp add: static_def)

lemma static_setRemaining:
  "map static (h[r := (h ! r)\<lparr>remainingQuantity := v\<rparr>]) = map static h"
  by (rule static_update) (simp add: static_def)

lemma updatePortfolio_frame [simp]:
  "heap (updatePortfolio tx s) = heap s"
  "orderStorage (updatePortfolio tx s) = orderStorage s"
  "transactions (updatePortfolio tx s) = transactions s"
  "orderCounter (updatePortfolio tx s) = orderCounter s"
  "transactionCounter (updatePortfolio tx s) = transactionCounter s"
  by (simp_all add: updatePortfolio_def Let_def split: property.splits)

lemma newTransaction_frame:
  "snd (newTransaction ord oc m now k s) = s\<lparr>transactionCounter := transactionCounter s + 1\<rparr>"
  by (simp add: newTransaction_def generateTransactionId_def)

lemma crossObjects_frame:
  assumes "crossObjects a c now k s = (f, tx, s6)"
  shows "orderStorage s6 = orderStorage s" "transactions s6 = transactions s"
    "orderCounter s6 = orderCounter s" "map static (heap s6) = map static (heap s)"
    "tx = fst (newTransaction (heap s ! a) (heap s ! c)
            (min (remainingQuantity (heap s ! a)) (remainingQuantity (heap s ! c))) now k s)"
  using assms newTransaction_frame [of "heap s ! a" "heap s ! c"
      "min (remainingQuantity (heap s ! a)) (remainingQuantity (heap s ! c))" now k s]
  by (auto simp: crossObjects_def Let_def split: prod.splits)


lemma book_kept_refl: "book_kept s s"
  by (simp add: book_kept_def)

lemma book_kept_trans: "book_kept s s1 \<Longrightarrow> book_kept s1 s2 \<Longrightarrow> book_kept s s2"
  by (simp add: book_kept_def)

lemma engine_wf_kept:
  assumes "engine_wf s" "book_kept s s'"
  shows "engine_wf s'"
proof -
  from assms(2) have e: "map static (heap s') = map static (heap s)"
    and st: "orderStorage s' = orderStorage s" and oc: "orderCounter s' = orderCounter s"
    by (simp_all add: book_kept_def)
  have "storage_wf (heap s') (orderStorage s')"
    unfolding st using assms(1) storage_wf_agree [OF static_agree [OF e]]
    by (simp add: engine_wf_def)
  then show ?thesis
    using assms(1) static_oids [OF e] oc by (simp add: engine_wf_def)
qed

lemma filed_kept:
  assumes "book_kept s s'" "filed (heap s) (orderStorage s) ty c"
  shows "filed (heap s') (orderStorage s') ty c"
proof -
  from assms(1) have e: "map static (heap s') = map static (heap s)"
    and st: "orderStorage s' = orderStorage s"
    by (simp_all add: book_kept_def)
  show ?thesis unfolding st using filed_agree [OF static_agree [OF e] assms(2)] .
qed

lemma crossObjects_kept:
  "crossObjects a c now k s = (f, tx, s6) \<Longrightarrow> book_kept s s6"
  by (simp add: book_kept_def crossObjects_frame)

lemma updateOrder_wf:
  assumes "engine_wf s" "filed (heap s) (orderStorage s) ty c"
  shows "storage_updateOrder (heap s) c (orderStorage s) = Inr (orderStorage s)"
  using assms storage_updateOrder_same [of "heap s" "orderStorage s" c]
  by (simp add: engine_wf_def filed_def)

lemma cross_wf:
  assumes w: "engine_wf s" and c: "filed (heap s) (orderStorage s) ty c"
    and co: "crossObjects a c now k s = (f, tx, s6)"
  shows "cross a c now k s = (None, f, tx, s6\<lparr>transactions := transactions s @ [tx]\<rparr>)"
proof -
  note k = crossObjects_kept [OF co]
  have "storage_updateOrder (heap s6) c (orderStorage s6) = Inr (orderStorage s6)"
    using updateOrder_wf [OF engine_wf_kept [OF w k] filed_kept [OF k c]] .
  then show ?thesis
    by (simp add: cross_def co crossObjects_frame(2) [OF co])
qed

lemma matchLoop_wf:
  assumes "engine_wf s" "\<forall>c \<in> set cs. \<exists>ty. filed (heap s) (orderStorage s) ty c"
  shows "\<exists>filled new k' s'.
     matchLoop a now cs k txs s = (None, filled, txs @ new, k', s') \<and> book_kept s s' \<and>
     transactions s' = transactions s @ new \<and> (new = [] \<longrightarrow> s' = s \<and> k' = k \<and> \<not> filled)"
  using assms
proof (induction cs arbitrary: k txs s)
  case Nil
  have "matchLoop a now [] k txs s = (None, False, txs @ [], k, s)" by simp
  then show ?case using book_kept_refl [of s] by blast
next
  case (Cons c cs)
  from Cons.prems(2) obtain ty where c: "filed (heap s) (orderStorage s) ty c" by auto
  from Cons.prems(2) have rest: "\<forall>c \<in> set cs. \<exists>ty. filed (heap s) (orderStorage s) ty c" by simp
  show ?case
  proof (cases "skipped (heap s ! c) \<or> \<not> priceMatches (heap s ! a) (heap s ! c)")
    case True
    then have "matchLoop a now (c # cs) k txs s = matchLoop a now cs k txs s" by auto
    with Cons.IH [OF Cons.prems(1) rest, of k txs] show ?thesis by simp
  next
    case False
    obtain f tx s6 where co: "crossObjects a c now k s = (f, tx, s6)"
      by (cases "crossObjects a c now k s") auto
    let ?s1 = "s6\<lparr>transactions := transactions s @ [tx]\<rparr>"
    note cr = cross_wf [OF Cons.prems(1) c co]
    have k1: "book_kept s ?s1"
      using crossObjects_kept [OF co] by (simp add: book_kept_def)
    show ?thesis
    proof (cases f)
      case True
      with False cr have "matchLoop a now (c # cs) k txs s = (None, True, txs @ [tx], k + 2, ?s1)"
        by simp
      with k1 show ?thesis by auto
    next
      case nf: False
      with False cr have m: "matchLoop a now (c # cs) k txs s =
          matchLoop a now cs (k + 2) (txs @ [tx]) ?s1"
        by simp
      have w1: "engine_wf ?s1" using engine_wf_kept [OF Cons.prems(1) k1] .
      have rest1: "\<forall>c \<in> set cs. \<exists>ty. filed (heap ?s1) (orderStorage ?s1) ty c"
        using rest filed_kept [OF k1] by blast
      from Cons.IH [OF w1 rest1, of "k + 2" "txs @ [tx]"]
      obtain filled new k' s' where r:
        "matchLoop a now cs (k + 2) (txs @ [tx]) ?s1 = (None, filled, (txs @ [tx]) @ new, k', s')"
        "book_kept ?s1 s'" "transactions s' = transactions ?s1 @ new"
        by blast
      have "matchLoop a now (c # cs) k txs s = (None, filled, txs @ (tx # new), k', s')"
        using m r(1) by simp
      moreover have "book_kept s s'" using book_kept_trans [OF k1 r(2)] .
      moreover have "transactions s' = transactions s @ (tx # new)" using r(3) by simp
      ultimately show ?thesis by blast
    qed
  qed
qed

section \<open>Insertion into the book\<close>

lemma set_insort_cmp: "set (insort_cmp cmp x xs) = insert x (set xs)"
  by (induction xs) auto

lemma set_js_sort: "set (js_sort cmp xs) = set xs"
  by (induction xs) (simp_all add: js_sort_def set_insort_cmp)

lemma cmp_buy_key:
  "cmp_buy h a b \<le> 0 \<longleftrightarrow>
     (- price (h ! a), timestamp (h ! a)) \<le> (- price (h ! b), timestamp (h ! b))"
  by (auto simp: cmp_buy_def)

lemma cmp_sell_key:
  "cmp_sell h a b \<le> 0 \<longleftrightarrow>
     (price (h ! a), timestamp (h ! a)) \<le> (price (h ! b), timestamp (h ! b))"
  by (auto simp: cmp_sell_def)

lemma sorted_bids_js_sort: "sorted_bids h (js_sort (cmp_buy h) xs)"
proof -
  let ?f = "\<lambda>r. (- price (h ! r), timestamp (h ! r))"
  have "js_sort (cmp_buy h) xs = sort_key ?f xs"
    by (rule js_sort_key) (rule cmp_buy_key)
  moreover have "sorted (map ?f (sort_key ?f xs))" by (rule sorted_sort_key)
  ultimately have "sorted_wrt (\<lambda>a b. ?f a \<le> ?f b) (js_sort (cmp_buy h) xs)"
    by (simp add: sorted_map)
  then show ?thesis
    unfolding sorted_bids_def
    by (rule sorted_wrt_mono_rel [rotated]) (auto simp: bid_before_def)
qed

lemma sorted_asks_js_sort: "sorted_asks h (js_sort (cmp_sell h) xs)"
proof -
  let ?f = "\<lambda>r. (price (h ! r), timestamp (h ! r))"
  have "js_sort (cmp_sell h) xs = sort_key ?f xs"
    by (rule js_sort_key) (rule cmp_sell_key)
  moreover have "sorted (map ?f (sort_key ?f xs))" by (rule sorted_sort_key)
  ultimately have "sorted_wrt (\<lambda>a b. ?f a \<le> ?f b) (js_sort (cmp_sell h) xs)"
    by (simp add: sorted_map)
  then show ?thesis
    unfolding sorted_asks_def
    by (rule sorted_wrt_mono_rel [rotated]) (auto simp: ask_before_def)
qed

text \<open>The registry after \<^verbatim>\<open>getTickerIndex\<close>.\<close>

lemma getTickerIndex_wf:
  assumes w: "storage_wf h st" and g: "getTickerIndex t st = Inr (i, st1)"
  shows "storage_wf h st1" "i < MAX_TICKERS" "map_of (tickerToIndex st1) t = Some i"
    "buyOrders st1 = buyOrders st" "sellOrders st1 = sellOrders st"
proof -
  have "storage_wf h st1 \<and> i < MAX_TICKERS \<and> map_of (tickerToIndex st1) t = Some i \<and>
    buyOrders st1 = buyOrders st \<and> sellOrders st1 = sellOrders st"
  proof (cases "map_of (tickerToIndex st) t")
    case (Some j)
    with g have "i = j" "st1 = st" by (simp_all add: getTickerIndex_def)
    with Some w slot_in_range [OF w Some] show ?thesis by simp
  next
    case None
    with g have n: "nextIndex st < MAX_TICKERS" "i = nextIndex st"
      and st1: "st1 = st\<lparr>nextIndex := nextIndex st + 1,
                   tickerToIndex := tickerToIndex st @ [(t, nextIndex st)]\<rparr>"
      by (auto simp: getTickerIndex_def split: if_splits)
    have m: "map_of (tickerToIndex st1) t = Some i"
      using None n by (simp add: st1 map_add_def)
    have keep: "map_of (tickerToIndex st) u \<noteq> None \<Longrightarrow> map_of (tickerToIndex st1) u \<noteq> None" for u
      by (auto simp: st1 map_add_def split: option.splits)
    have f: "filed h st ty r \<Longrightarrow> filed h st1 ty r" for ty r
      using keep by (simp add: filed_def)
    have "storage_wf h st1"
      using w n f unfolding storage_wf_def by (auto simp: st1)
    with m n show ?thesis by (simp add: st1)
  qed
  then show "storage_wf h st1" "i < MAX_TICKERS" "map_of (tickerToIndex st1) t = Some i"
    "buyOrders st1 = buyOrders st" "sellOrders st1 = sellOrders st" by simp_all
qed

lemma filed_rows:
  "tickerToIndex st' = tickerToIndex st \<Longrightarrow> filed h st' ty r = filed h st ty r"
  by (simp add: filed_def)

lemma storage_addOrder_wf:
  assumes w: "storage_wf h st" and a: "a < length h"
    and r: "storage_addOrder h a st = Inr st'"
  shows "storage_wf h st'" "filed h st' (otype (h ! a)) a"
    "a \<in> set (fst (if otype (h ! a) = Buy then storage_getBuyOrders (tickerSymbol (h ! a)) st'
                   else storage_getSellOrders (tickerSymbol (h ! a)) st'))"
proof -
  from r obtain i st1 where g: "getTickerIndex (tickerSymbol (h ! a)) st = Inr (i, st1)"
    by (auto simp: storage_addOrder_def split: sum.splits)
  note g1 = getTickerIndex_wf [OF w g]
  have w1: "storage_wf h st1" and i: "i < MAX_TICKERS"
    and m: "map_of (tickerToIndex st1) (tickerSymbol (h ! a)) = Some i"
    using g1 by simp_all
  have lb: "length (buyOrders st1) = MAX_TICKERS" and ls: "length (sellOrders st1) = MAX_TICKERS"
    and fb: "\<forall>j < MAX_TICKERS. \<forall>r \<in> set (buyOrders st1 ! j). filed h st1 Buy r"
    and fs: "\<forall>j < MAX_TICKERS. \<forall>r \<in> set (sellOrders st1 ! j). filed h st1 Sell r"
    and sb: "\<forall>j < MAX_TICKERS. sorted_bids h (buyOrders st1 ! j)"
    and ss: "\<forall>j < MAX_TICKERS. sorted_asks h (sellOrders st1 ! j)"
    and sl: "\<forall>e \<in> set (tickerToIndex st1). snd e < MAX_TICKERS"
    using w1 by (simp_all add: storage_wf_def)
  have "storage_wf h st' \<and> filed h st' (otype (h ! a)) a \<and>
    a \<in> set (fst (if otype (h ! a) = Buy then storage_getBuyOrders (tickerSymbol (h ! a)) st'
                   else storage_getSellOrders (tickerSymbol (h ! a)) st'))"
  proof (cases "otype (h ! a) = Buy")
    case True
    let ?row = "js_sort (cmp_buy h) (buyOrders st1 ! i @ [a])"
    have st': "st' = st1\<lparr>buyOrders := (buyOrders st1)[i := ?row]\<rparr>"
      using r g True by (simp add: storage_addOrder_def)
    have t: "tickerToIndex st' = tickerToIndex st1" by (simp add: st')
    have fa: "filed h st' Buy a"
      using a True m by (simp add: filed_def t)
    have row: "buyOrders st' ! j = (if j = i then ?row else buyOrders st1 ! j)"
      if "j < MAX_TICKERS" for j
      using that lb by (simp add: st' nth_list_update)
    have fb': "\<forall>j < MAX_TICKERS. \<forall>r \<in> set (buyOrders st' ! j). filed h st' Buy r"
      using fb fa row by (auto simp: set_js_sort filed_rows [OF t])
    have fs': "\<forall>j < MAX_TICKERS. \<forall>r \<in> set (sellOrders st' ! j). filed h st' Sell r"
      using fs by (simp add: st' filed_def)
    have sb': "\<forall>j < MAX_TICKERS. sorted_bids h (buyOrders st' ! j)"
      using sb row sorted_bids_js_sort by simp
    have ss': "\<forall>j < MAX_TICKERS. sorted_asks h (sellOrders st' ! j)"
      using ss by (simp add: st')
    have wf: "storage_wf h st'"
      unfolding storage_wf_def using fb' fs' sb' ss' lb ls sl by (simp add: st')
    have "getTickerIndex (tickerSymbol (h ! a)) st' = Inr (i, st')"
      using m by (simp add: getTickerIndex_registered t)
    then have "fst (storage_getBuyOrders (tickerSymbol (h ! a)) st') = ?row"
      using row [OF i] by (simp add: storage_getBuyOrders_def)
    then have "a \<in> set (fst (storage_getBuyOrders (tickerSymbol (h ! a)) st'))"
      by (simp add: set_js_sort)
    with wf fa True show ?thesis by simp
  next
    case False
    then have sell: "otype (h ! a) = Sell" by (cases "otype (h ! a)") simp_all
    let ?row = "js_sort (cmp_sell h) (sellOrders st1 ! i @ [a])"
    have st': "st' = st1\<lparr>sellOrders := (sellOrders st1)[i := ?row]\<rparr>"
      using r g False by (simp add: storage_addOrder_def)
    have t: "tickerToIndex st' = tickerToIndex st1" by (simp add: st')
    have fa: "filed h st' Sell a"
      using a sell m by (simp add: filed_def t)
    have row: "sellOrders st' ! j = (if j = i then ?row else sellOrders st1 ! j)"
      if "j < MAX_TICKERS" for j
      using that ls by (simp add: st' nth_list_update)
    have fs': "\<forall>j < MAX_TICKERS. \<forall>r \<in> set (sellOrders st' ! j). filed h st' Sell r"
      using fs fa row by (auto simp: set_js_sort filed_rows [OF t])
    have fb': "\<forall>j < MAX_TICKERS. \<forall>r \<in> set (buyOrders st' ! j). filed h st' Buy r"
      using fb by (simp add: st' filed_def)
    have ss': "\<forall>j < MAX_TICKERS. sorted_asks h (sellOrders st' ! j)"
      using ss row sorted_asks_js_sort by simp
    have sb': "\<forall>j < MAX_TICKERS. sorted_bids h (buyOrders st' ! j)"
      using sb by (simp add: st')
    have wf: "storage_wf h st'"
      unfolding storage_wf_def using fb' fs' sb' ss' lb ls sl by (simp add: st')
    have "getTickerIndex (tickerSymbol (h ! a)) st' = Inr (i, st')"
      using m by (simp add: getTickerIndex_registered t)
    then have "fst (storage_getSellOrders (tickerSymbol (h ! a)) st') = ?row"
      using row [OF i] by (simp add: storage_getSellOrders_def)
    then have "a \<in> set (fst (storage_getSellOrders (tickerSymbol (h ! a)) st'))"
      by (simp add: set_js_sort)
    with wf fa sell show ?thesis by simp
  qed
  then show "storage_wf h st'" "filed h st' (otype (h ! a)) a"
    "a \<in> set (fst (if otype (h ! a) = Buy then storage_getBuyOrders (tickerSymbol (h ! a)) st'
                   else storage_getSellOrders (tickerSymbol (h ! a)) st'))"
    by simp_all
qed

section \<open>A submission to a well-formed engine\<close>

lemma opposite_orders:
  assumes w: "engine_wf s" and a: "filed (heap s) (orderStorage s) ty a"
  shows "\<exists>cs. (if otype (heap s ! a) = Buy
               then storage_getSellOrders (tickerSymbol (heap s ! a)) (orderStorage s)
               else storage_getBuyOrders (tickerSymbol (heap s ! a)) (orderStorage s)) =
              (cs, orderStorage s) \<and>
          (\<forall>c \<in> set cs. filed (heap s) (orderStorage s)
                            (if otype (heap s ! a) = Buy then Sell else Buy) c)"
proof -
  from a obtain i where
    i: "map_of (tickerToIndex (orderStorage s)) (tickerSymbol (heap s ! a)) = Some i"
    by (auto simp: filed_def)
  from w have sw: "storage_wf (heap s) (orderStorage s)" by (simp add: engine_wf_def)
  have r: "i < MAX_TICKERS" using slot_in_range [OF sw i] .
  show ?thesis
    using sw r
    by (simp add: storage_getSellOrders_def storage_getBuyOrders_def
        getTickerIndex_registered [OF i] storage_wf_def)
qed

lemma matchOrder_wf:
  assumes w: "engine_wf s" and a: "filed (heap s) (orderStorage s) ty a"
  shows "\<exists>new k' s'. matchOrder a now k s = (None, new, k', s') \<and> book_kept s s' \<and>
     transactions s' = transactions s @ new \<and> (new = [] \<longrightarrow> s' = s \<and> k' = k)"
proof -
  from opposite_orders [OF w a] obtain cs where
    cs: "(if otype (heap s ! a) = Buy
          then storage_getSellOrders (tickerSymbol (heap s ! a)) (orderStorage s)
          else storage_getBuyOrders (tickerSymbol (heap s ! a)) (orderStorage s)) =
         (cs, orderStorage s)"
    and f: "\<forall>c \<in> set cs. \<exists>ty. filed (heap s) (orderStorage s) ty c"
    by blast
  show ?thesis
  proof (cases "cs = []")
    case True
    then have "matchOrder a now k s = (None, [], k, s)"
      using cs by (simp add: matchOrder_def)
    then show ?thesis using book_kept_refl [of s] by simp
  next
    case False
    from matchLoop_wf [OF w f, of a now k "[]"] obtain filled new k' s' where
      m: "matchLoop a now cs k [] s = (None, filled, new, k', s')"
      and k: "book_kept s s'" and t: "transactions s' = transactions s @ new"
      and n: "new = [] \<longrightarrow> s' = s \<and> k' = k \<and> \<not> filled"
      by auto
    have "storage_updateOrder (heap s') a (orderStorage s') = Inr (orderStorage s')"
      using updateOrder_wf [OF engine_wf_kept [OF w k] filed_kept [OF k a]] .
    then have "matchOrder a now k s = (None, new, k', s')"
      using cs False m by (simp add: matchOrder_def)
    with k t n show ?thesis by simp
  qed
qed

lemma autoFillObjects_frame:
  assumes "autoFillObjects ty a now k s = (tx, s5)"
  shows "book_kept s s5" "transactions s5 = transactions s @ [tx]"
    "tx = fst (syntheticTransaction ty a now k s)"
proof -
  have "snd (syntheticTransaction ty a now k s) =
      s\<lparr>transactionCounter := transactionCounter s + 1\<rparr>"
    by (simp add: syntheticTransaction_def generateTransactionId_def Let_def)
  with assms show "book_kept s s5" "transactions s5 = transactions s @ [tx]"
    "tx = fst (syntheticTransaction ty a now k s)"
    by (auto simp: autoFillObjects_def Let_def book_kept_def static_setRemaining
        split: prod.splits)
qed

lemma autoFill_wf:
  assumes w: "engine_wf s" and a: "filed (heap s) (orderStorage s) ty' a"
    and o: "autoFillObjects ty a now k s = (tx, s5)"
  shows "autoFill ty a now k s = (Inr a, s5)"
proof -
  note k = autoFillObjects_frame(1) [OF o]
  have "storage_updateOrder (heap s5) a (orderStorage s5) = Inr (orderStorage s5)"
    using updateOrder_wf [OF engine_wf_kept [OF w k] filed_kept [OF k a]] .
  then show ?thesis by (simp add: autoFill_def o)
qed

lemma settle_wf:
  assumes w: "engine_wf s" and a: "filed (heap s) (orderStorage s) ty' a"
  shows "\<exists>s'. settle ty a now s = (Inr a, s') \<and> book_kept s s'"
proof -
  from matchOrder_wf [OF w a, of now 2] obtain new k' s2 where
    m: "matchOrder a now 2 s = (None, new, k', s2)" and k: "book_kept s s2"
    by blast
  show ?thesis
  proof (cases "new = []")
    case True
    obtain tx s5 where o: "autoFillObjects ty a now k' s2 = (tx, s5)"
      by (cases "autoFillObjects ty a now k' s2") auto
    have "autoFill ty a now k' s2 = (Inr a, s5)"
      using autoFill_wf [OF engine_wf_kept [OF w k] filed_kept [OF k a] o] .
    with m True have "settle ty a now s = (Inr a, s5)" by (simp add: settle_def)
    with book_kept_trans [OF k autoFillObjects_frame(1) [OF o]] show ?thesis by simp
  next
    case False
    with m have "settle ty a now s = (Inr a, s2)" by (simp add: settle_def)
    with k show ?thesis by simp
  qed
qed

lemma createOrder_eq:
  "createOrder ty ticker q p now s =
     (length (heap s),
      s\<lparr>orderCounter := orderCounter s + 1,
        heap := heap s @ [\<lparr>oid = order_id (now 0) (orderCounter s), otype = ty,
          tickerSymbol = ticker, quantity = q, price = p, timestamp = now 1,
          status = Pending, remainingQuantity = q\<rparr>]\<rparr>)"
  by (simp add: createOrder_def generateOrderId_def)

lemma createOrder_wf:
  assumes w: "engine_wf s" and c: "createOrder ty ticker q p now s = (a, s1)"
  shows "engine_wf s1" "a = length (heap s)" "a < length (heap s1)"
    "otype (heap s1 ! a) = ty" "tickerSymbol (heap s1 ! a) = ticker"
proof -
  let ?ord = "\<lparr>oid = order_id (now 0) (orderCounter s), otype = ty,
          tickerSymbol = ticker, quantity = q, price = p, timestamp = now 1,
          status = Pending, remainingQuantity = q\<rparr>"
  from c have a: "a = length (heap s)"
    and s1: "s1 = s\<lparr>orderCounter := orderCounter s + 1, heap := heap s @ [?ord]\<rparr>"
    by (simp_all add: createOrder_eq)
  have sw: "storage_wf (heap s1) (orderStorage s1)"
    using w storage_wf_agree [OF append_agree] by (simp add: s1 engine_wf_def)
  have fresh: "order_id (now 0) (orderCounter s) \<notin> set (map oid (heap s))"
  proof
    assume "order_id (now 0) (orderCounter s) \<in> set (map oid (heap s))"
    with w obtain t n where "n < orderCounter s"
      "order_id (now 0) (orderCounter s) = order_id t n"
      unfolding engine_wf_def by blast
    with order_id_inj show False by blast
  qed
  have d: "distinct (map oid (heap s1))"
    using w fresh by (simp add: s1 engine_wf_def)
  have b: "\<forall>i \<in> set (map oid (heap s1)). \<exists>t n. n < orderCounter s1 \<and> i = order_id t n"
  proof
    fix i assume "i \<in> set (map oid (heap s1))"
    then have "i = order_id (now 0) (orderCounter s) \<or> i \<in> set (map oid (heap s))"
      by (auto simp: s1)
    then show "\<exists>t n. n < orderCounter s1 \<and> i = order_id t n"
    proof
      assume "i = order_id (now 0) (orderCounter s)"
      then show ?thesis by (auto simp: s1)
    next
      assume "i \<in> set (map oid (heap s))"
      with w obtain t n where "n < orderCounter s" "i = order_id t n"
        unfolding engine_wf_def by blast
      then show ?thesis by (auto simp: s1 intro: less_SucI)
    qed
  qed
  show "engine_wf s1" using sw d b by (simp add: engine_wf_def)
  show "a = length (heap s)" by (rule a)
  show "a < length (heap s1)" "otype (heap s1 ! a) = ty" "tickerSymbol (heap s1 ! a) = ticker"
    by (simp_all add: a s1)
qed

lemma addOrder_wf:
  assumes w: "engine_wf s" and v: "validate ty ticker q p s = None"
    and c: "createOrder ty ticker q p now s = (a, s1)"
  shows "engine_wf s1"
    "storage_addOrder (heap s1) a (orderStorage s1) = Inl e \<Longrightarrow>
       addOrder ty ticker q p now s = (Inl e, s1)"
    "storage_addOrder (heap s1) a (orderStorage s1) = Inr st \<Longrightarrow>
       engine_wf (s1\<lparr>orderStorage := st\<rparr>) \<and> filed (heap s1) st ty a \<and>
       (\<exists>s'. addOrder ty ticker q p now s = (Inr a, s') \<and>
             settle ty a now (s1\<lparr>orderStorage := st\<rparr>) = (Inr a, s') \<and>
             book_kept (s1\<lparr>orderStorage := st\<rparr>) s')"
proof -
  note c1 = createOrder_wf [OF w c]
  show w1: "engine_wf s1" by (rule c1(1))
  show "addOrder ty ticker q p now s = (Inl e, s1)"
    if "storage_addOrder (heap s1) a (orderStorage s1) = Inl e"
    using that by (simp add: addOrder_def v c)
  show "engine_wf (s1\<lparr>orderStorage := st\<rparr>) \<and> filed (heap s1) st ty a \<and>
       (\<exists>s'. addOrder ty ticker q p now s = (Inr a, s') \<and>
             settle ty a now (s1\<lparr>orderStorage := st\<rparr>) = (Inr a, s') \<and>
             book_kept (s1\<lparr>orderStorage := st\<rparr>) s')"
    if r: "storage_addOrder (heap s1) a (orderStorage s1) = Inr st"
  proof -
    let ?s = "s1\<lparr>orderStorage := st\<rparr>"
    from w1 have sw: "storage_wf (heap s1) (orderStorage s1)" by (simp add: engine_wf_def)
    note ins = storage_addOrder_wf [OF sw c1(3) r]
    have w2: "engine_wf ?s"
      using w1 ins(1) by (simp add: engine_wf_def)
    have f: "filed (heap s1) st ty a" using ins(2) c1(4) by simp
    then have f': "filed (heap ?s) (orderStorage ?s) ty a" by simp
    from settle_wf [OF w2 f', of ty now] obtain s' where
      s': "settle ty a now ?s = (Inr a, s')" "book_kept ?s s'" by blast
    have "addOrder ty ticker q p now s = (Inr a, s')"
      using s'(1) by (simp add: addOrder_def v c r)
    with w2 f s' show ?thesis by blast
  qed
qed

lemma engine_wf_addOrder:
  assumes w: "engine_wf s"
  shows "engine_wf (snd (addOrder ty ticker q p now s))"
proof (cases "validate ty ticker q p s")
  case (Some e)
  then show ?thesis using w by (simp add: addOrder_invalid)
next
  case None
  obtain a s1 where c: "createOrder ty ticker q p now s = (a, s1)"
    by (cases "createOrder ty ticker q p now s") auto
  note aw = addOrder_wf [OF w None c]
  show ?thesis
  proof (cases "storage_addOrder (heap s1) a (orderStorage s1)")
    case (Inl e)
    from aw(2) [OF Inl] aw(1) show ?thesis by simp
  next
    case (Inr st)
    from aw(3) [OF Inr] obtain s' where
      "engine_wf (s1\<lparr>orderStorage := st\<rparr>)" "addOrder ty ticker q p now s = (Inr a, s')"
      "book_kept (s1\<lparr>orderStorage := st\<rparr>) s'" by blast
    then show ?thesis using engine_wf_kept by simp
  qed
qed

lemma engine_wf_new: "engine_wf new_TradingEngine"
  by (simp add: engine_wf_def storage_wf_def new_TradingEngine_def new_OrderStorage_def
      sorted_bids_def sorted_asks_def)

lemma storage_wf_sorted:
  assumes "storage_wf h st"
  shows "book_sorted h st"
  unfolding book_sorted_def
proof
  fix t
  show "sorted_bids h (fst (storage_getBuyOrders t st)) \<and>
        sorted_asks h (fst (storage_getSellOrders t st))"
  proof (cases "getTickerIndex t st")
    case (Inl e)
    then show ?thesis
      by (simp add: storage_getBuyOrders_def storage_getSellOrders_def sorted_bids_def
          sorted_asks_def)
  next
    case (Inr r)
    obtain i st1 where r: "r = (i, st1)" by (cases r)
    note g = getTickerIndex_wf [OF assms Inr [unfolded r]]
    from g(1,2) have "sorted_bids h (buyOrders st1 ! i)" "sorted_asks h (sellOrders st1 ! i)"
      by (simp_all add: storage_wf_def)
    then show ?thesis
      by (simp add: storage_getBuyOrders_def storage_getSellOrders_def Inr r)
  qed
qed

text \<open>\<^verbatim>\<open>updateOrder\<close> and \<^verbatim>\<open>removeOrder\<close> on well-formed storage.\<close>

lemma sorted_wrt_spliceById:
  "sorted_wrt P rs \<Longrightarrow> sorted_wrt P (spliceById h a rs)"
  "set (spliceById h a rs) \<subseteq> set rs"
proof -
  have s: "set (spliceById h a rs) \<subseteq> set rs" for rs
    by (induction rs) auto
  show "set (spliceById h a rs) \<subseteq> set rs" by (rule s)
  show "sorted_wrt P rs \<Longrightarrow> sorted_wrt P (spliceById h a rs)"
    using s by (induction rs) auto
qed

lemma storage_removeOrder_wf:
  assumes w: "storage_wf h st" and r: "storage_removeOrder h a st = Inr st'"
  shows "storage_wf h st'"
proof -
  from r obtain i st1 where g: "getTickerIndex (tickerSymbol (h ! a)) st = Inr (i, st1)"
    by (auto simp: storage_removeOrder_def split: sum.splits)
  note g1 = getTickerIndex_wf [OF w g]
  have lb: "length (buyOrders st1) = MAX_TICKERS" and ls: "length (sellOrders st1) = MAX_TICKERS"
    and fb: "\<forall>j < MAX_TICKERS. \<forall>r \<in> set (buyOrders st1 ! j). filed h st1 Buy r"
    and fs: "\<forall>j < MAX_TICKERS. \<forall>r \<in> set (sellOrders st1 ! j). filed h st1 Sell r"
    and sb: "\<forall>j < MAX_TICKERS. sorted_bids h (buyOrders st1 ! j)"
    and ss: "\<forall>j < MAX_TICKERS. sorted_asks h (sellOrders st1 ! j)"
    and sl: "\<forall>e \<in> set (tickerToIndex st1). snd e < MAX_TICKERS"
    using g1(1) by (simp_all add: storage_wf_def)
  show ?thesis
  proof (cases "otype (h ! a) = Buy")
    case True
    let ?row = "spliceById h a (buyOrders st1 ! i)"
    have st': "st' = st1\<lparr>buyOrders := (buyOrders st1)[i := ?row]\<rparr>"
      using r g True by (simp add: storage_removeOrder_def)
    have t: "tickerToIndex st' = tickerToIndex st1" by (simp add: st')
    have row: "buyOrders st' ! j = (if j = i then ?row else buyOrders st1 ! j)"
      if "j < MAX_TICKERS" for j
      using that lb by (simp add: st' nth_list_update)
    have fb': "\<forall>j < MAX_TICKERS. \<forall>r \<in> set (buyOrders st' ! j). filed h st' Buy r"
      using fb row sorted_wrt_spliceById(2) [of h a "buyOrders st1 ! i"]
      by (auto simp: filed_rows [OF t])
    have fs': "\<forall>j < MAX_TICKERS. \<forall>r \<in> set (sellOrders st' ! j). filed h st' Sell r"
      using fs by (simp add: st' filed_def)
    have sb': "\<forall>j < MAX_TICKERS. sorted_bids h (buyOrders st' ! j)"
      using sb row sorted_wrt_spliceById(1) by (simp add: sorted_bids_def)
    have ss': "\<forall>j < MAX_TICKERS. sorted_asks h (sellOrders st' ! j)"
      using ss by (simp add: st')
    show ?thesis
      unfolding storage_wf_def using fb' fs' sb' ss' lb ls sl by (simp add: st')
  next
    case False
    let ?row = "spliceById h a (sellOrders st1 ! i)"
    have st': "st' = st1\<lparr>sellOrders := (sellOrders st1)[i := ?row]\<rparr>"
      using r g False by (simp add: storage_removeOrder_def)
    have t: "tickerToIndex st' = tickerToIndex st1" by (simp add: st')
    have row: "sellOrders st' ! j = (if j = i then ?row else sellOrders st1 ! j)"
      if "j < MAX_TICKERS" for j
      using that ls by (simp add: st' nth_list_update)
    have fs': "\<forall>j < MAX_TICKERS. \<forall>r \<in> set (sellOrders st' ! j). filed h st' Sell r"
      using fs row sorted_wrt_spliceById(2) [of h a "sellOrders st1 ! i"]
      by (auto simp: filed_rows [OF t])
    have fb': "\<forall>j < MAX_TICKERS. \<forall>r \<in> set (buyOrders st' ! j). filed h st' Buy r"
      using fb by (simp add: st' filed_def)
    have ss': "\<forall>j < MAX_TICKERS. sorted_asks h (sellOrders st' ! j)"
      using ss row sorted_wrt_spliceById(1) by (simp add: sorted_asks_def)
    have sb': "\<forall>j < MAX_TICKERS. sorted_bids h (buyOrders st' ! j)"
      using sb by (simp add: st')
    show ?thesis
      unfolding storage_wf_def using fb' fs' sb' ss' lb ls sl by (simp add: st')
  qed
qed

lemma storage_updateOrder_wf:
  assumes w: "storage_wf h st" and d: "distinct (map oid h)" and a: "a < length h"
    and r: "storage_updateOrder h a st = Inr st'"
  shows "storage_wf h st'"
proof -
  from r obtain i st1 where g: "getTickerIndex (tickerSymbol (h ! a)) st = Inr (i, st1)"
    by (auto simp: storage_updateOrder_def split: sum.splits)
  note g1 = getTickerIndex_wf [OF w g]
  have "storage_updateOrder h a st1 = Inr st1"
    using storage_updateOrder_same [OF g1(1) d a] g1(3) by simp
  moreover have "storage_updateOrder h a st1 = storage_updateOrder h a st"
    using g g1(3) by (simp add: storage_updateOrder_def getTickerIndex_registered)
  ultimately show ?thesis using r g1(1) by simp
qed

section \<open>The order of the book\<close>

lemma engine_wf_query:
  assumes "engine_wf s"
  shows "engine_wf (snd (getBuyOrders t s))" "engine_wf (snd (getSellOrders t s))"
proof -
  from assms have sw: "storage_wf (heap s) (orderStorage s)" by (simp add: engine_wf_def)
  have "engine_wf (s\<lparr>orderStorage := st1\<rparr>)"
    if "getTickerIndex t (orderStorage s) = Inr (i, st1)" for i st1
    using getTickerIndex_wf(1) [OF sw that] assms by (simp add: engine_wf_def)
  then show "engine_wf (snd (getBuyOrders t s))" "engine_wf (snd (getSellOrders t s))"
    using assms
    by (auto simp: getBuyOrders_def getSellOrders_def storage_getBuyOrders_def
        storage_getSellOrders_def split: sum.splits prod.splits)
qed

lemma engine_wf_perform: "engine_wf s \<Longrightarrow> engine_wf (perform c s)"
  by (cases c) (simp_all add: engine_wf_addOrder engine_wf_query)

lemma engine_wf_run: "engine_wf (run calls)"
  unfolding run_def
  by (induction calls rule: rev_induct) (simp_all add: engine_wf_new engine_wf_perform)

lemma engine_wf_sorted: "engine_wf s \<Longrightarrow> book_sorted (heap s) (orderStorage s)"
  by (simp add: engine_wf_def storage_wf_sorted)

text \<open>
  C6. The book of a well-formed engine is sorted after \<^verbatim>\<open>addOrder\<close>, and the engine is
  still well-formed; each of the three operations of the storage that change a row
  (\<^verbatim>\<open>addOrder\<close>, \<^verbatim>\<open>updateOrder\<close>, \<^verbatim>\<open>removeOrder\<close>) leaves every row sorted; and the
  book is sorted after every run of calls from the new engine. Sorted means: for every
  symbol the bids are in descending order of price and the asks in ascending order of
  price, orders of one price in ascending order of timestamp.
\<close>

theorem book_stays_sorted:
  "(engine_wf s \<longrightarrow>
      engine_wf (snd (addOrder ty ticker q p now s)) \<and>
      book_sorted (heap (snd (addOrder ty ticker q p now s)))
        (orderStorage (snd (addOrder ty ticker q p now s)))) \<and>
   (engine_wf s \<longrightarrow> a < length (heap s) \<longrightarrow>
      (\<forall>st'. storage_addOrder (heap s) a (orderStorage s) = Inr st' \<or>
             storage_updateOrder (heap s) a (orderStorage s) = Inr st' \<or>
             storage_removeOrder (heap s) a (orderStorage s) = Inr st' \<longrightarrow>
             book_sorted (heap s) st')) \<and>
   book_sorted (heap (run calls)) (orderStorage (run calls))"
proof -
  have 1: "engine_wf (snd (addOrder ty ticker q p now s)) \<and>
      book_sorted (heap (snd (addOrder ty ticker q p now s)))
        (orderStorage (snd (addOrder ty ticker q p now s)))" if "engine_wf s"
    using engine_wf_addOrder [OF that] engine_wf_sorted by blast
  have 2: "book_sorted (heap s) st'"
    if w: "engine_wf s" and a: "a < length (heap s)"
      and r: "storage_addOrder (heap s) a (orderStorage s) = Inr st' \<or>
             storage_updateOrder (heap s) a (orderStorage s) = Inr st' \<or>
             storage_removeOrder (heap s) a (orderStorage s) = Inr st'" for st'
  proof -
    from w have sw: "storage_wf (heap s) (orderStorage s)" and d: "distinct (map oid (heap s))"
      by (simp_all add: engine_wf_def)
    from r have "storage_wf (heap s) st'"
      using storage_addOrder_wf(1) [OF sw a] storage_updateOrder_wf [OF sw d a]
        storage_removeOrder_wf [OF sw] by blast
    then show ?thesis by (rule storage_wf_sorted)
  qed
  have 3: "book_sorted (heap (run calls)) (orderStorage (run calls))"
    using engine_wf_run by (rule engine_wf_sorted)
  show ?thesis using 1 2 3 by blast
qed

lemmas engine_defs = addOrder_def validate_def js_trim_def is_ws_def createOrder_eq
  storage_addOrder_def getTickerIndex_def settle_def matchOrder_def autoFill_def
  autoFillObjects_def syntheticTransaction_def generateTransactionId_def
  storage_updateOrder_def storage_getSellOrders_def storage_getBuyOrders_def
  updatePortfolio_def getProperty_def Object_prototype_members_def isBuyTransaction_def
  setStatus_def js_sort_def
  new_TradingEngine_def new_OrderStorage_def MAX_TICKERS_def Let_def

lemma run_one:
  "run [AddOrder Buy ''AAPL'' 10 50 clock0] =
     \<lparr>orderStorage = \<lparr>buyOrders = (replicate 1024 [])[0 := [0]], sellOrders = replicate 1024 [],
        tickerToIndex = [(''AAPL'', 0)], nextIndex = 1\<rparr>,
      heap = [\<lparr>oid = order_id (clock0 0) 0, otype = Buy, tickerSymbol = ''AAPL'',
        quantity = 10, price = 50, timestamp = clock0 1, status = Matched,
        remainingQuantity = 0\<rparr>],
      transactions = [\<lparr>tid = transaction_id (clock0 2) 0, buyOrderId = order_id (clock0 0) 0,
        sellOrderId = ''auto-filled'', tx_tickerSymbol = ''AAPL'', tx_quantity = 10,
        tx_price = 50, tx_timestamp = clock0 3\<rparr>],
      orderCounter = 1, transactionCounter = 1,
      portfolioPositions = [''AAPL'' \<mapsto> \<lparr>symbol = ''AAPL'', shares = 10,
        averageBuyPrice = 50, currentValue = 50\<rparr>]\<rparr>"
  by (simp add: run_def engine_defs)


lemma two_bids_step:
  "two_bids = snd (addOrder Buy ''AAPL'' 5 60 clock0 (run [AddOrder Buy ''AAPL'' 10 50 clock0]))"
  by (simp add: two_bids_def run_def)

lemma two_bids_row: "fst (storage_getBuyOrders ''AAPL'' (orderStorage two_bids)) = [1, 0]"
  unfolding two_bids_step run_one
  by (simp add: engine_defs cmp_buy_def)

lemma two_bids_prices: "map price (heap two_bids) = [50, 60]"
  unfolding two_bids_step run_one
  by (simp add: engine_defs cmp_buy_def)

theorem book_stays_sorted_witness:
  "engine_wf new_TradingEngine \<and>
   engine_wf (snd (addOrder Buy ''AAPL'' 10 50 clock0 new_TradingEngine)) \<and>
   book_sorted (heap two_bids) (orderStorage two_bids) \<and>
   fst (storage_getBuyOrders ''AAPL'' (orderStorage two_bids)) = [1, 0] \<and>
   map price (heap two_bids) = [50, 60]"
  using book_stays_sorted [of new_TradingEngine Buy "''AAPL''" 10 50 clock0 0
      "[AddOrder Buy ''AAPL'' 10 50 clock0, AddOrder Buy ''AAPL'' 5 60 clock0]"]
    engine_wf_new two_bids_row two_bids_prices
  by (simp add: two_bids_def)

section \<open>Symbols that name a member of Object.prototype\<close>

text \<open>
  The new engine holds no position. A Sell and a Buy of the symbol \<^verbatim>\<open>constructor\<close>, 1
  at 1, are carried out by the following run of \<^verbatim>\<open>addOrder\<close>.
\<close>

lemma sell_constructor:
  "addOrder Sell ''constructor'' 1 1 clock0 new_TradingEngine =
     (Inr 0,
      \<lparr>orderStorage = \<lparr>buyOrders = replicate 1024 [], sellOrders = (replicate 1024 [])[0 := [0]],
        tickerToIndex = [(''constructor'', 0)], nextIndex = 1\<rparr>,
      heap = [\<lparr>oid = order_id (clock0 0) 0, otype = Sell, tickerSymbol = ''constructor'',
        quantity = 1, price = 1, timestamp = clock0 1, status = Matched,
        remainingQuantity = 0\<rparr>],
      transactions = [\<lparr>tid = transaction_id (clock0 2) 0, buyOrderId = ''market'',
        sellOrderId = order_id (clock0 0) 0, tx_tickerSymbol = ''constructor'', tx_quantity = 1,
        tx_price = 1, tx_timestamp = clock0 3\<rparr>],
      orderCounter = 1, transactionCounter = 1,
      portfolioPositions = Map.empty\<rparr>)"
  by (simp add: engine_defs del: One_nat_def)

lemma buy_constructor:
  "addOrder Buy ''constructor'' 1 1 clock0 new_TradingEngine =
     (Inr 0,
      \<lparr>orderStorage = \<lparr>buyOrders = (replicate 1024 [])[0 := [0]], sellOrders = replicate 1024 [],
        tickerToIndex = [(''constructor'', 0)], nextIndex = 1\<rparr>,
      heap = [\<lparr>oid = order_id (clock0 0) 0, otype = Buy, tickerSymbol = ''constructor'',
        quantity = 1, price = 1, timestamp = clock0 1, status = Matched,
        remainingQuantity = 0\<rparr>],
      transactions = [\<lparr>tid = transaction_id (clock0 2) 0, buyOrderId = order_id (clock0 0) 0,
        sellOrderId = ''auto-filled'', tx_tickerSymbol = ''constructor'', tx_quantity = 1,
        tx_price = 1, tx_timestamp = clock0 3\<rparr>],
      orderCounter = 1, transactionCounter = 1,
      portfolioPositions = Map.empty\<rparr>)"
  by (simp add: engine_defs del: One_nat_def)

text \<open>
  C3. A Sell is not rejected when its symbol names a member of \<^verbatim>\<open>Object.prototype\<close>
  and the ledger has no position of that name. On the new engine, which holds no shares
  of any symbol,
  \<^verbatim>\<open>addOrder('sell', 'constructor', 1, 1)\<close> does not throw: the read of line 127 gives
  the inherited member, which is truthy and has no number as \<^verbatim>\<open>shares\<close>, so the test
  of line 128 is false. The call returns the order, filled by one synthetic transaction
  with the buyer \<^verbatim>\<open>'market'\<close>, and the order rests in the book.
\<close>

theorem sell_of_inherited_name:
  "heldShares new_TradingEngine ''constructor'' = 0 \<and>
   fst (addOrder Sell ''constructor'' 1 1 clock0 new_TradingEngine) = Inr 0 \<and>
   map status (heap (snd (addOrder Sell ''constructor'' 1 1 clock0 new_TradingEngine))) =
     [Matched] \<and>
   map buyOrderId (transactions (snd (addOrder Sell ''constructor'' 1 1 clock0 new_TradingEngine))) =
     [''market''] \<and>
   fst (getSellOrders ''constructor''
          (snd (addOrder Sell ''constructor'' 1 1 clock0 new_TradingEngine))) = [0]"
  unfolding sell_constructor
  by (simp add: heldShares_def new_TradingEngine_def getSellOrders_def
      storage_getSellOrders_def getTickerIndex_def)

text \<open>
  C5. A buy creates no position when its symbol names a member of
  \<^verbatim>\<open>Object.prototype\<close>. On the new engine \<^verbatim>\<open>addOrder('buy', 'constructor', 1, 1)\<close>
  is filled by one synthetic transaction, a buy of 1 at 1, and \<^verbatim>\<open>updatePortfolio\<close>
  applies it: the read of line 323 gives the inherited member, so no position is
  created, lines 341 and 342 assign to that member, and the ledger has no position
  for the symbol after the call, where the transaction applied to an absent position
  gives one share at the average cost 1.
\<close>

theorem buy_of_inherited_name:
  "portfolioPositions new_TradingEngine ''constructor'' = None \<and>
   fst (addOrder Buy ''constructor'' 1 1 clock0 new_TradingEngine) = Inr 0 \<and>
   map (\<lambda>tx. (sellOrderId tx, tx_tickerSymbol tx, tx_quantity tx, tx_price tx))
     (transactions (snd (addOrder Buy ''constructor'' 1 1 clock0 new_TradingEngine))) =
     [(''auto-filled'', ''constructor'', 1, 1)] \<and>
   portfolioPositions (snd (addOrder Buy ''constructor'' 1 1 clock0 new_TradingEngine))
     ''constructor'' = None"
  unfolding buy_constructor
  by (simp add: new_TradingEngine_def)


section \<open>The synthetic fill\<close>











section \<open>Filled orders stay in the book\<close>




section \<open>Crossings\<close>

lemma crossing_static:
  assumes "static x' = static x" "static y' = static y"
  shows "crossing x' y' tx = crossing x y tx" "transactionPrice x' y' = transactionPrice x y"
  using static_fields [OF assms(1)] static_fields [OF assms(2)]
  by (simp_all add: crossing_def transactionPrice_def)

lemma newTransaction_crossing:
  "crossing ord oc (fst (newTransaction ord oc m now k s))"
  "tx_price (fst (newTransaction ord oc m now k s)) = transactionPrice ord oc"
  "tx_quantity (fst (newTransaction ord oc m now k s)) = m"
  by (simp_all add: newTransaction_def generateTransactionId_def crossing_def)

lemma matchLoop_skip:
  "skipped (heap s ! c) \<or> \<not> priceMatches (heap s ! a) (heap s ! c) \<Longrightarrow>
     matchLoop a now (c # cs) k txs s = matchLoop a now cs k txs s"
  by auto

lemma matchLoop_cross:
  assumes "\<not> (skipped (heap s ! c) \<or> \<not> priceMatches (heap s ! a) (heap s ! c))"
    "cross a c now k s = (None, g, tx, s1)"
  shows "matchLoop a now (c # cs) k txs s =
     (if g then (None, True, txs @ [tx], k + 2, s1)
      else matchLoop a now cs (k + 2) (txs @ [tx]) s1)"
  using assms by simp

lemma matchLoop_crossings:
  assumes "engine_wf s" "\<forall>c \<in> set cs. \<exists>ty. filed (heap s) (orderStorage s) ty c"
    "a < length (heap s)" "matchLoop a now cs k txs s = (e, f, txs', k', s')"
  shows "\<forall>tx \<in> set txs'. tx \<in> set txs \<or>
     (\<exists>c \<in> set cs. crossing (heap s ! a) (heap s ! c) tx \<and>
        tx_price tx = transactionPrice (heap s ! a) (heap s ! c))"
  using assms
proof (induction cs arbitrary: k txs s)
  case Nil
  then show ?case by simp
next
  case (Cons c cs)
  from Cons.prems(2) obtain ty where c: "filed (heap s) (orderStorage s) ty c" by auto
  from Cons.prems(2) have rest: "\<forall>c \<in> set cs. \<exists>ty. filed (heap s) (orderStorage s) ty c" by simp
  show ?case
  proof (cases "skipped (heap s ! c) \<or> \<not> priceMatches (heap s ! a) (heap s ! c)")
    case True
    have "matchLoop a now cs k txs s = (e, f, txs', k', s')"
      using Cons.prems(4) unfolding matchLoop_skip [OF True] .
    from Cons.IH [OF Cons.prems(1) rest Cons.prems(3) this] show ?thesis by auto
  next
    case False
    obtain g tx s6 where co: "crossObjects a c now k s = (g, tx, s6)"
      by (cases "crossObjects a c now k s") auto
    let ?s1 = "s6\<lparr>transactions := transactions s @ [tx]\<rparr>"
    note cr = cross_wf [OF Cons.prems(1) c co]
    have k1: "book_kept s ?s1"
      using crossObjects_kept [OF co] by (simp add: book_kept_def)
    have tx: "crossing (heap s ! a) (heap s ! c) tx"
      "tx_price tx = transactionPrice (heap s ! a) (heap s ! c)"
      unfolding crossObjects_frame(5) [OF co] by (rule newTransaction_crossing)+
    show ?thesis
    proof (cases g)
      case True
      with Cons.prems(4) have "txs' = txs @ [tx]"
        unfolding matchLoop_cross [OF False cr] by simp
      with tx show ?thesis by auto
    next
      case nf: False
      with Cons.prems(4) have m: "matchLoop a now cs (k + 2) (txs @ [tx]) ?s1 =
          (e, f, txs', k', s')"
        unfolding matchLoop_cross [OF False cr] by simp
      have w1: "engine_wf ?s1" using engine_wf_kept [OF Cons.prems(1) k1] .
      have rest1: "\<forall>c \<in> set cs. \<exists>ty. filed (heap ?s1) (orderStorage ?s1) ty c"
        using rest filed_kept [OF k1] by blast
      from k1 have e: "map static (heap ?s1) = map static (heap s)"
        by (simp add: book_kept_def)
      have a1: "a < length (heap ?s1)"
        using Cons.prems(3) static_length [OF e] by simp
      note ih = Cons.IH [OF w1 rest1 a1 m]
      show ?thesis
      proof
        fix t assume "t \<in> set txs'"
        with ih have "t \<in> set (txs @ [tx]) \<or>
           (\<exists>c \<in> set cs. crossing (heap ?s1 ! a) (heap ?s1 ! c) t \<and>
              tx_price t = transactionPrice (heap ?s1 ! a) (heap ?s1 ! c))"
          by blast
        then show "t \<in> set txs \<or>
           (\<exists>c \<in> set (c # cs). crossing (heap s ! a) (heap s ! c) t \<and>
              tx_price t = transactionPrice (heap s ! a) (heap s ! c))"
        proof
          assume "t \<in> set (txs @ [tx])"
          with tx show ?thesis by auto
        next
          assume "\<exists>c \<in> set cs. crossing (heap ?s1 ! a) (heap ?s1 ! c) t \<and>
              tx_price t = transactionPrice (heap ?s1 ! a) (heap ?s1 ! c)"
          then obtain c' where c': "c' \<in> set cs" "crossing (heap ?s1 ! a) (heap ?s1 ! c') t"
            "tx_price t = transactionPrice (heap ?s1 ! a) (heap ?s1 ! c')"
            by blast
          from rest c'(1) have l: "c' < length (heap s)" by (auto simp: filed_def)
          note st = crossing_static [OF static_nth [OF e Cons.prems(3)] static_nth [OF e l]]
          from c'(2,3) have "crossing (heap s ! a) (heap s ! c') t"
            "tx_price t = transactionPrice (heap s ! a) (heap s ! c')"
            unfolding st by simp_all
          with c'(1) show ?thesis by auto
        qed
      qed
    qed
  qed
qed

lemma order_id_neq: "n \<noteq> n' \<Longrightarrow> order_id t n \<noteq> order_id t' n'"
  using order_id_inj by blast

lemma ids_crossing_engine:
  "\<forall>i \<in> set (map oid (heap crossing_engine)). \<exists>t n. n < orderCounter crossing_engine \<and> i = order_id t n"
proof -
  have "\<exists>t n. n < (2::nat) \<and> order_id 900 0 = order_id t n"
    by (intro exI [of _ 900] exI [of _ 0]) simp
  moreover have "\<exists>t n. n < (2::nat) \<and> order_id 1000 1 = order_id t n"
    by (intro exI [of _ 1000] exI [of _ 1]) simp
  ultimately show ?thesis
    by (simp add: crossing_engine_def resting_sell_def incoming_buy_def)
qed

lemma engine_wf_crossing_engine: "engine_wf crossing_engine"
proof -
  have sw: "storage_wf (heap crossing_engine) (orderStorage crossing_engine)"
    by (simp add: storage_wf_def crossing_engine_def MAX_TICKERS_def filed_def
        sorted_bids_def sorted_asks_def resting_sell_def incoming_buy_def nth_list_update)
  have d: "distinct (map oid (heap crossing_engine))"
    by (simp add: crossing_engine_def resting_sell_def incoming_buy_def order_id_neq)
  show ?thesis
    using sw d ids_crossing_engine by (simp add: engine_wf_def)
qed

lemma filed_incoming: "filed (heap crossing_engine) (orderStorage crossing_engine) Buy 1"
  by (simp add: filed_def crossing_engine_def incoming_buy_def)

lemma crossObjects_incoming:
  "crossObjects 1 0 clock0 2 crossing_engine =
     (True, tsla_trade,
      crossing_engine\<lparr>transactionCounter := 1,
        portfolioPositions := [''TSLA'' \<mapsto> \<lparr>symbol = ''TSLA'', shares = 4,
           averageBuyPrice = 30, currentValue = 30\<rparr>],
        heap := [resting_sell\<lparr>remainingQuantity := 6, status := Partial\<rparr>,
                 incoming_buy\<lparr>remainingQuantity := 0, status := Matched\<rparr>]\<rparr>)"
  by (simp add: crossObjects_def newTransaction_def generateTransactionId_def
      transactionPrice_def subRemaining_def setStatus_def updatePortfolio_def
      getProperty_def Object_prototype_members_def isBuyTransaction_def findOrderById_def
      getAllTickers_def storage_getBuyOrders_def
      storage_getSellOrders_def getTickerIndex_def crossing_engine_def resting_sell_def
      incoming_buy_def tsla_trade_def clock0_def order_id_not_sentinel Let_def)


lemma filed_resting: "filed (heap crossing_engine) (orderStorage crossing_engine) Sell 0"
  by (simp add: filed_def crossing_engine_def resting_sell_def)

lemma cross_incoming:
  "cross 1 0 clock0 2 crossing_engine = (None, True, tsla_trade, crossed_engine)"
  using cross_wf [OF engine_wf_crossing_engine filed_resting crossObjects_incoming]
  by (simp add: crossed_engine_def crossing_engine_def)

lemma opposite_incoming:
  "storage_getSellOrders ''TSLA'' (orderStorage crossing_engine) =
     ([0], orderStorage crossing_engine)"
  by (simp add: storage_getSellOrders_def getTickerIndex_def crossing_engine_def)

lemma matchLoop_incoming:
  "matchLoop 1 clock0 [0] 2 [] crossing_engine = (None, True, [tsla_trade], 4, crossed_engine)"
proof -
  have "\<not> (skipped (heap crossing_engine ! 0) \<or>
      \<not> priceMatches (heap crossing_engine ! 1) (heap crossing_engine ! 0))"
    by (simp add: skipped_def priceMatches_def crossing_engine_def resting_sell_def
        incoming_buy_def)
  from matchLoop_cross [OF this cross_incoming] show ?thesis by simp
qed

lemma matchOrder_incoming:
  "matchOrder 1 clock0 2 crossing_engine = (None, [tsla_trade], 4, crossed_engine)"
proof -
  have o: "otype (heap crossing_engine ! 1) = Buy"
    "tickerSymbol (heap crossing_engine ! 1) = ''TSLA''"
    by (simp_all add: crossing_engine_def incoming_buy_def)
  have e: "crossing_engine\<lparr>orderStorage := orderStorage crossing_engine\<rparr> = crossing_engine"
    by simp
  show ?thesis
    by (simp add: matchOrder_def Let_def o opposite_incoming e matchLoop_incoming
        del: One_nat_def matchLoop.simps)
qed

text \<open>
  C4. In a well-formed engine, every transaction that \<^verbatim>\<open>matchOrder\<close> returns for an
  order of the book is a crossing of that order with an entry of the opposite row of
  its symbol, and its price is the entry's price when the entry's timestamp is the
  earlier one, and the incoming order's price when the incoming order's timestamp is
  the earlier one or the two timestamps are equal.
\<close>

theorem crossing_price:
  assumes "engine_wf s" "filed (heap s) (orderStorage s) ty a"
    "matchOrder a now k s = (e, txs, k', s')" "tx \<in> set txs"
  shows "\<exists>c \<in> set (fst (if otype (heap s ! a) = Buy
                          then storage_getSellOrders (tickerSymbol (heap s ! a)) (orderStorage s)
                          else storage_getBuyOrders (tickerSymbol (heap s ! a)) (orderStorage s))).
     crossing (heap s ! a) (heap s ! c) tx \<and>
     (timestamp (heap s ! c) < timestamp (heap s ! a) \<longrightarrow> tx_price tx = price (heap s ! c)) \<and>
     (timestamp (heap s ! a) < timestamp (heap s ! c) \<longrightarrow> tx_price tx = price (heap s ! a)) \<and>
     (timestamp (heap s ! a) = timestamp (heap s ! c) \<longrightarrow> tx_price tx = price (heap s ! a))"
proof -
  from opposite_orders [OF assms(1,2)] obtain cs where
    cs: "(if otype (heap s ! a) = Buy
          then storage_getSellOrders (tickerSymbol (heap s ! a)) (orderStorage s)
          else storage_getBuyOrders (tickerSymbol (heap s ! a)) (orderStorage s)) =
         (cs, orderStorage s)"
    and f: "\<forall>c \<in> set cs. \<exists>ty. filed (heap s) (orderStorage s) ty c"
    by blast
  from assms(2) have a: "a < length (heap s)" by (simp add: filed_def)
  have ne: "cs \<noteq> []"
  proof
    assume "cs = []"
    then have "matchOrder a now k s = (None, [], k, s)"
      using cs by (simp add: matchOrder_def)
    with assms(3,4) show False by simp
  qed
  obtain e1 f1 txs1 k1 s1 where m: "matchLoop a now cs k [] s = (e1, f1, txs1, k1, s1)"
    by (cases "matchLoop a now cs k [] s") auto
  have "txs = txs1"
    using assms(3) cs ne m
    by (auto simp: matchOrder_def split: option.splits if_splits sum.splits)
  with matchLoop_crossings [OF assms(1) f a m] assms(4) obtain c where
    c: "c \<in> set cs" "crossing (heap s ! a) (heap s ! c) tx"
    "tx_price tx = transactionPrice (heap s ! a) (heap s ! c)"
    by auto
  have "fst (if otype (heap s ! a) = Buy
             then storage_getSellOrders (tickerSymbol (heap s ! a)) (orderStorage s)
             else storage_getBuyOrders (tickerSymbol (heap s ! a)) (orderStorage s)) = cs"
    unfolding cs by simp
  with c show ?thesis
    by (auto simp: transactionPrice_def)
qed

theorem crossing_price_witness:
  "engine_wf crossing_engine \<and>
   filed (heap crossing_engine) (orderStorage crossing_engine) Buy 1 \<and>
   matchOrder 1 clock0 2 crossing_engine = (None, [tsla_trade], 4, crossed_engine) \<and>
   tsla_trade \<in> set [tsla_trade] \<and>
   timestamp (heap crossing_engine ! 0) < timestamp (heap crossing_engine ! 1) \<and>
   price (heap crossing_engine ! 1) = 35 \<and>
   tx_price tsla_trade = price (heap crossing_engine ! 0)"
proof -
  have t: "tsla_trade \<in> set [tsla_trade]" by simp
  have o: "otype (heap crossing_engine ! 1) = Buy"
    "tickerSymbol (heap crossing_engine ! 1) = ''TSLA''"
    "timestamp (heap crossing_engine ! 0) < timestamp (heap crossing_engine ! 1)"
    "price (heap crossing_engine ! 1) = 35"
    by (simp_all add: crossing_engine_def incoming_buy_def resting_sell_def)
  from crossing_price [OF engine_wf_crossing_engine filed_incoming matchOrder_incoming t]
  have "tx_price tsla_trade = price (heap crossing_engine ! 0)"
    using o by (simp add: opposite_incoming)
  with engine_wf_crossing_engine filed_incoming matchOrder_incoming t o show ?thesis
    by (intro conjI)
qed

section \<open>The invariants of an order\<close>





















section \<open>Queries register symbols\<close>

lemma getTickerIndex_grows:
  assumes "getTickerIndex t st = Inr (i, st1)"
  shows "prefix (tickerToIndex st) (tickerToIndex st1)"
    "registry_count st \<Longrightarrow> registry_count st1"
  using assms
  by (auto simp: getTickerIndex_def registry_count_def split: option.splits if_splits)

lemma storage_addOrder_grows:
  assumes "storage_addOrder h a st = Inr st'"
  shows "prefix (tickerToIndex st) (tickerToIndex st')"
    "registry_count st \<Longrightarrow> registry_count st'"
proof -
  from assms obtain i st1 where g: "getTickerIndex (tickerSymbol (h ! a)) st = Inr (i, st1)"
    and t: "tickerToIndex st' = tickerToIndex st1" "nextIndex st' = nextIndex st1"
    by (auto simp: storage_addOrder_def split: sum.splits if_splits)
  from getTickerIndex_grows [OF g] t
  show "prefix (tickerToIndex st) (tickerToIndex st')"
    "registry_count st \<Longrightarrow> registry_count st'"
    by (simp_all add: registry_count_def)
qed

lemma addOrder_storage:
  assumes w: "engine_wf s"
  shows "prefix (tickerToIndex (orderStorage s))
           (tickerToIndex (orderStorage (snd (addOrder ty ticker q p now s))))"
    "registry_count (orderStorage s) \<Longrightarrow>
       registry_count (orderStorage (snd (addOrder ty ticker q p now s)))"
proof -
  let ?s' = "snd (addOrder ty ticker q p now s)"
  have "prefix (tickerToIndex (orderStorage s)) (tickerToIndex (orderStorage ?s')) \<and>
     (registry_count (orderStorage s) \<longrightarrow> registry_count (orderStorage ?s'))"
  proof (cases "validate ty ticker q p s")
    case (Some e)
    then show ?thesis by (simp add: addOrder_invalid)
  next
    case None
    obtain b s1 where c: "createOrder ty ticker q p now s = (b, s1)"
      by (cases "createOrder ty ticker q p now s") auto
    from c have st1: "orderStorage s1 = orderStorage s" by (auto simp: createOrder_eq)
    note aw = addOrder_wf [OF w None c]
    show ?thesis
    proof (cases "storage_addOrder (heap s1) b (orderStorage s1)")
      case (Inl e)
      from aw(2) [OF Inl] st1 show ?thesis by simp
    next
      case (Inr st)
      from aw(3) [OF Inr] obtain s' where
        r: "addOrder ty ticker q p now s = (Inr b, s')" "book_kept (s1\<lparr>orderStorage := st\<rparr>) s'"
        by blast
      then have "orderStorage ?s' = st" by (simp add: book_kept_def)
      with storage_addOrder_grows [OF Inr] st1 show ?thesis by simp
    qed
  qed
  then show "prefix (tickerToIndex (orderStorage s)) (tickerToIndex (orderStorage ?s'))"
    "registry_count (orderStorage s) \<Longrightarrow> registry_count (orderStorage ?s')"
    by simp_all
qed

lemma query_storage:
  "prefix (tickerToIndex (orderStorage s)) (tickerToIndex (orderStorage (snd (getBuyOrders t s))))"
  "prefix (tickerToIndex (orderStorage s)) (tickerToIndex (orderStorage (snd (getSellOrders t s))))"
  "registry_count (orderStorage s) \<Longrightarrow> registry_count (orderStorage (snd (getBuyOrders t s)))"
  "registry_count (orderStorage s) \<Longrightarrow> registry_count (orderStorage (snd (getSellOrders t s)))"
  using getTickerIndex_grows [of t "orderStorage s"]
  by (auto simp: getBuyOrders_def getSellOrders_def storage_getBuyOrders_def
      storage_getSellOrders_def split: sum.splits)

lemma perform_storage:
  assumes "engine_wf s"
  shows "prefix (tickerToIndex (orderStorage s)) (tickerToIndex (orderStorage (perform c s)))"
    "registry_count (orderStorage s) \<Longrightarrow> registry_count (orderStorage (perform c s))"
  using addOrder_storage [OF assms] query_storage [of s]
  by (cases c; simp)+

lemma fold_perform_storage:
  assumes "engine_wf s"
  shows "engine_wf (fold perform calls s) \<and>
     prefix (tickerToIndex (orderStorage s)) (tickerToIndex (orderStorage (fold perform calls s))) \<and>
     (registry_count (orderStorage s) \<longrightarrow> registry_count (orderStorage (fold perform calls s)))"
proof (induction calls rule: rev_induct)
  case Nil
  then show ?case using assms by simp
next
  case (snoc c calls)
  let ?s = "fold perform calls s"
  from snoc have w: "engine_wf ?s" by simp
  from perform_storage [OF w, of c] engine_wf_perform [OF w, of c] snoc
  show ?case by (auto intro: prefix_order.order_trans)
qed

lemma registry_count_run: "registry_count (orderStorage (run calls))"
  using fold_perform_storage [OF engine_wf_new, of calls]
  by (simp add: run_def registry_count_def new_TradingEngine_def new_OrderStorage_def)

lemma getTickerIndex_unseen:
  assumes "ticker \<notin> set (getAllTickers st)"
  shows "getTickerIndex ticker st =
     (if nextIndex st < MAX_TICKERS
      then Inr (nextIndex st, st\<lparr>nextIndex := nextIndex st + 1,
                   tickerToIndex := tickerToIndex st @ [(ticker, nextIndex st)]\<rparr>)
      else Inl MaxTickersReached)"
proof -
  have "map_of (tickerToIndex st) ticker = None"
    using assms by (simp add: getAllTickers_def map_of_eq_None_iff)
  then show ?thesis by (simp add: getTickerIndex_def)
qed

lemma tickers_stay:
  assumes "engine_wf s" "ticker \<in> set (getAvailableTickers s)"
  shows "ticker \<in> set (getAvailableTickers (fold perform calls s))"
proof -
  from fold_perform_storage [OF assms(1), of calls]
  have "prefix (tickerToIndex (orderStorage s)) (tickerToIndex (orderStorage (fold perform calls s)))"
    by simp
  then have "set (map fst (tickerToIndex (orderStorage s))) \<subseteq>
      set (map fst (tickerToIndex (orderStorage (fold perform calls s))))"
    by (auto simp: prefix_def)
  with assms(2) show ?thesis
    by (auto simp: getAvailableTickers_def getAllTickers_def)
qed

text \<open>
  C10. In a well-formed engine, \<^verbatim>\<open>getBuyOrders\<close> and \<^verbatim>\<open>getSellOrders\<close> for a symbol that
  is not registered change the engine while the counter of the registry is below
  \<open>MAX_TICKERS\<close>: the symbol is appended to the registered symbols, the counter moves
  on by one slot, and the symbol is among the registered symbols after any further
  calls. When the counter has reached \<open>MAX_TICKERS\<close> both queries return the empty
  sequence and the same engine. After every run of calls the counter is the number of
  registered symbols, at most \<open>MAX_TICKERS\<close>.
\<close>

theorem query_registers:
  assumes "engine_wf s" "ticker \<notin> set (getAvailableTickers s)"
  shows
  "(nextIndex (orderStorage s) < MAX_TICKERS \<longrightarrow>
      getAvailableTickers (snd (getBuyOrders ticker s)) = getAvailableTickers s @ [ticker] \<and>
      getAvailableTickers (snd (getSellOrders ticker s)) = getAvailableTickers s @ [ticker] \<and>
      nextIndex (orderStorage (snd (getBuyOrders ticker s))) = nextIndex (orderStorage s) + 1 \<and>
      nextIndex (orderStorage (snd (getSellOrders ticker s))) = nextIndex (orderStorage s) + 1 \<and>
      snd (getBuyOrders ticker s) \<noteq> s \<and> snd (getSellOrders ticker s) \<noteq> s \<and>
      (\<forall>calls.
         ticker \<in> set (getAvailableTickers (fold perform calls (snd (getBuyOrders ticker s)))) \<and>
         ticker \<in> set (getAvailableTickers (fold perform calls (snd (getSellOrders ticker s)))))) \<and>
   (\<not> nextIndex (orderStorage s) < MAX_TICKERS \<longrightarrow>
      getBuyOrders ticker s = ([], s) \<and> getSellOrders ticker s = ([], s)) \<and>
   (\<forall>calls. registry_count (orderStorage (run calls)))"
proof -
  have u: "ticker \<notin> set (getAllTickers (orderStorage s))"
    using assms(2) by (simp add: getAvailableTickers_def)
  note g = getTickerIndex_unseen [OF u]
  have full: "getBuyOrders ticker s = ([], s) \<and> getSellOrders ticker s = ([], s)"
    if "\<not> nextIndex (orderStorage s) < MAX_TICKERS"
    using that by (simp add: getBuyOrders_def getSellOrders_def storage_getBuyOrders_def
        storage_getSellOrders_def g)
  have free: "getAvailableTickers (snd (getBuyOrders ticker s)) = getAvailableTickers s @ [ticker] \<and>
      getAvailableTickers (snd (getSellOrders ticker s)) = getAvailableTickers s @ [ticker] \<and>
      nextIndex (orderStorage (snd (getBuyOrders ticker s))) = nextIndex (orderStorage s) + 1 \<and>
      nextIndex (orderStorage (snd (getSellOrders ticker s))) = nextIndex (orderStorage s) + 1 \<and>
      snd (getBuyOrders ticker s) \<noteq> s \<and> snd (getSellOrders ticker s) \<noteq> s \<and>
      (\<forall>calls.
         ticker \<in> set (getAvailableTickers (fold perform calls (snd (getBuyOrders ticker s)))) \<and>
         ticker \<in> set (getAvailableTickers (fold perform calls (snd (getSellOrders ticker s)))))"
    if n: "nextIndex (orderStorage s) < MAX_TICKERS"
  proof -
    have b: "getAvailableTickers (snd (getBuyOrders ticker s)) = getAvailableTickers s @ [ticker]"
      "nextIndex (orderStorage (snd (getBuyOrders ticker s))) = nextIndex (orderStorage s) + 1"
      using n by (simp_all add: getBuyOrders_def storage_getBuyOrders_def g
          getAvailableTickers_def getAllTickers_def)
    have c: "getAvailableTickers (snd (getSellOrders ticker s)) = getAvailableTickers s @ [ticker]"
      "nextIndex (orderStorage (snd (getSellOrders ticker s))) = nextIndex (orderStorage s) + 1"
      using n by (simp_all add: getSellOrders_def storage_getSellOrders_def g
          getAvailableTickers_def getAllTickers_def)
    have d: "snd (getBuyOrders ticker s) \<noteq> s" "snd (getSellOrders ticker s) \<noteq> s"
      using b(2) c(2) by auto
    have "ticker \<in> set (getAvailableTickers (fold perform calls (snd (getBuyOrders ticker s))))"
      "ticker \<in> set (getAvailableTickers (fold perform calls (snd (getSellOrders ticker s))))"
      for calls
      using tickers_stay [OF engine_wf_query(1) [OF assms(1)], of ticker ticker calls]
        tickers_stay [OF engine_wf_query(2) [OF assms(1)], of ticker ticker calls] b(1) c(1)
      by simp_all
    with b c d show ?thesis by blast
  qed
  show ?thesis
    using full free registry_count_run by blast
qed

theorem query_registers_witness:
  "engine_wf new_TradingEngine \<and>
   ''AAPL'' \<notin> set (getAvailableTickers new_TradingEngine) \<and>
   nextIndex (orderStorage new_TradingEngine) < MAX_TICKERS \<and>
   getAvailableTickers (snd (getBuyOrders ''AAPL'' new_TradingEngine)) = [''AAPL''] \<and>
   getAvailableTickers (snd (getSellOrders ''AAPL'' new_TradingEngine)) = [''AAPL''] \<and>
   ''AAPL'' \<in> set (getAvailableTickers (fold perform [GetSellOrders ''MSFT'']
      (snd (getBuyOrders ''AAPL'' new_TradingEngine))))"
proof -
  have a: "''AAPL'' \<notin> set (getAvailableTickers new_TradingEngine)"
    by (simp add: getAvailableTickers_def getAllTickers_def new_TradingEngine_def
        new_OrderStorage_def)
  have b: "nextIndex (orderStorage new_TradingEngine) < MAX_TICKERS"
    by (simp add: new_TradingEngine_def new_OrderStorage_def MAX_TICKERS_def)
  have c: "getAvailableTickers new_TradingEngine = []"
    by (simp add: getAvailableTickers_def getAllTickers_def new_TradingEngine_def
        new_OrderStorage_def)
  from query_registers [OF engine_wf_new a] b
  have "getAvailableTickers (snd (getBuyOrders ''AAPL'' new_TradingEngine)) =
      getAvailableTickers new_TradingEngine @ [''AAPL'']"
    "getAvailableTickers (snd (getSellOrders ''AAPL'' new_TradingEngine)) =
      getAvailableTickers new_TradingEngine @ [''AAPL'']"
    "''AAPL'' \<in> set (getAvailableTickers (fold perform [GetSellOrders ''MSFT'']
      (snd (getBuyOrders ''AAPL'' new_TradingEngine))))"
    by blast+
  with engine_wf_new a b show ?thesis unfolding c by simp
qed

end
